theory Spec2Isabelle
  imports Main "HOL-Library.Word" "HOL-Library.Sublist"
begin

unbundle bit_operations_syntax

section \<open>The upload command of the rekor client\<close>

text \<open>
  A shallow embedding of \<^verbatim>\<open>cmd/cli/app/upload.go\<close>: the functions \<^verbatim>\<open>isArmorProtected\<close>
  and \<^verbatim>\<open>hashGenerator\<close> and the \<^verbatim>\<open>Run\<close> function of \<^verbatim>\<open>uploadCmd\<close>.

  The Go packages the file calls are modelled in two ways. The ones whose result is
  fixed by a standard or by a short algorithm are written out as executable functions:
  \<^verbatim>\<open>crypto/sha256\<close>, \<^verbatim>\<open>encoding/hex\<close>, \<^verbatim>\<open>hash/crc32\<close>, \<^verbatim>\<open>compress/flate\<close>,
  \<^verbatim>\<open>compress/gzip\<close>, \<^verbatim>\<open>strings.HasSuffix\<close>, \<^verbatim>\<open>bufio.Reader.ReadLine\<close>,
  \<^verbatim>\<open>bytes.TrimSpace\<close> and \<^verbatim>\<open>armor.Decode\<close>. The ones that depend on the outside world
  (configuration, the file system, HTTP, OpenPGP key parsing and signature checking,
  JSON) are fields of a record \<open>world\<close>, and every theorem about \<open>Run\<close> holds for
  every such world.
\<close>

type_synonym byte = "8 word"
type_synonym u32 = "32 word"
type_synonym u64 = "64 word"
type_synonym bits = "bool list"

text \<open>Go strings are byte sequences, as Isabelle's are.\<close>

definition bytes_of :: "string \<Rightarrow> byte list" where
  "bytes_of s = map of_char s"

text \<open>The \<^verbatim>\<open>error\<close> values the model distinguishes.\<close>

datatype go_error =
    EOF
  | ErrUnexpectedEOF
  | ErrHeader
  | ErrChecksum
  | CorruptInputError
  | ErrInvalid
  | ErrBufferFull
  | ESPIPE
  | DeadlineExceeded
  | Err string

subsection \<open>crypto/sha256 and encoding/hex\<close>

definition rotr32 :: "nat \<Rightarrow> u32 \<Rightarrow> u32" where
  "rotr32 n x = drop_bit n x OR push_bit (32 - n) (take_bit n x)"

definition sha256_K :: "u32 list" where
  "sha256_K =
    [0x428A2F98, 0x71374491, 0xB5C0FBCF, 0xE9B5DBA5, 0x3956C25B, 0x59F111F1,
     0x923F82A4, 0xAB1C5ED5, 0xD807AA98, 0x12835B01, 0x243185BE, 0x550C7DC3,
     0x72BE5D74, 0x80DEB1FE, 0x9BDC06A7, 0xC19BF174, 0xE49B69C1, 0xEFBE4786,
     0x0FC19DC6, 0x240CA1CC, 0x2DE92C6F, 0x4A7484AA, 0x5CB0A9DC, 0x76F988DA,
     0x983E5152, 0xA831C66D, 0xB00327C8, 0xBF597FC7, 0xC6E00BF3, 0xD5A79147,
     0x06CA6351, 0x14292967, 0x27B70A85, 0x2E1B2138, 0x4D2C6DFC, 0x53380D13,
     0x650A7354, 0x766A0ABB, 0x81C2C92E, 0x92722C85, 0xA2BFE8A1, 0xA81A664B,
     0xC24B8B70, 0xC76C51A3, 0xD192E819, 0xD6990624, 0xF40E3585, 0x106AA070,
     0x19A4C116, 0x1E376C08, 0x2748774C, 0x34B0BCB5, 0x391C0CB3, 0x4ED8AA4A,
     0x5B9CCA4F, 0x682E6FF3, 0x748F82EE, 0x78A5636F, 0x84C87814, 0x8CC70208,
     0x90BEFFFA, 0xA4506CEB, 0xBEF9A3F7, 0xC67178F2]"

type_synonym sha_state = "u32 \<times> u32 \<times> u32 \<times> u32 \<times> u32 \<times> u32 \<times> u32 \<times> u32"

definition sha256_init :: sha_state where
  "sha256_init =
    (0x6A09E667, 0xBB67AE85, 0x3C6EF372, 0xA54FF53A,
     0x510E527F, 0x9B05688C, 0x1F83D9AB, 0x5BE0CD19)"

text \<open>\<^verbatim>\<open>blockGeneric\<close>: the sixteen big-endian words of a chunk, the message schedule,
  the sixty-four rounds and the addition into the chaining value.\<close>

fun be_words :: "byte list \<Rightarrow> u32 list" where
  "be_words (a # b # c # d # p) =
     (push_bit 24 (ucast a) OR push_bit 16 (ucast b) OR push_bit 8 (ucast c) OR ucast d)
     # be_words p"
| "be_words _ = []"

fun schedule :: "nat \<Rightarrow> u32 list \<Rightarrow> u32 list" where
  "schedule 0 w = w"
| "schedule (Suc n) w =
     (let i = length w;
          v1 = w ! (i - 2);
          t1 = rotr32 17 v1 XOR rotr32 19 v1 XOR drop_bit 10 v1;
          v2 = w ! (i - 15);
          t2 = rotr32 7 v2 XOR rotr32 18 v2 XOR drop_bit 3 v2
      in schedule n (w @ [t1 + w ! (i - 7) + t2 + w ! (i - 16)]))"

fun sha_round :: "sha_state \<Rightarrow> u32 \<times> u32 \<Rightarrow> sha_state" where
  "sha_round (a, b, c, d, e, f, g, h) (k, w) =
     (let t1 = h + (rotr32 6 e XOR rotr32 11 e XOR rotr32 25 e)
                 + ((e AND f) XOR (NOT e AND g)) + k + w;
          t2 = (rotr32 2 a XOR rotr32 13 a XOR rotr32 22 a)
                 + ((a AND b) XOR (a AND c) XOR (b AND c))
      in (t1 + t2, a, b, c, d + t1, e, f, g))"

fun sha_add :: "sha_state \<Rightarrow> sha_state \<Rightarrow> sha_state" where
  "sha_add (h0, h1, h2, h3, h4, h5, h6, h7) (a, b, c, d, e, f, g, h) =
     (h0 + a, h1 + b, h2 + c, h3 + d, h4 + e, h5 + f, h6 + g, h7 + h)"

definition sha_chunk :: "sha_state \<Rightarrow> byte list \<Rightarrow> sha_state" where
  "sha_chunk hs p =
     sha_add hs (foldl sha_round hs (zip sha256_K (schedule 48 (be_words p))))"

function sha_block :: "sha_state \<Rightarrow> byte list \<Rightarrow> sha_state" where
  "sha_block hs p =
     (if length p \<ge> 64 then sha_block (sha_chunk hs (take 64 p)) (drop 64 p) else hs)"
  by pat_completeness auto
termination
  by (relation "measure (\<lambda>(hs, p). length p)") auto

declare sha_block.simps [simp del]

definition be_bytes32 :: "u32 \<Rightarrow> byte list" where
  "be_bytes32 x = [ucast (drop_bit 24 x), ucast (drop_bit 16 x), ucast (drop_bit 8 x), ucast x]"

definition be_bytes64 :: "u64 \<Rightarrow> byte list" where
  "be_bytes64 x = map (\<lambda>i. ucast (drop_bit (8 * i) x)) [7, 6, 5, 4, 3, 2, 1, 0]"

text \<open>\<^verbatim>\<open>checkSum\<close>: a one bit, zero bits up to 56 bytes modulo 64, then the length in
  bits as a 64-bit big-endian number (the length is a \<^verbatim>\<open>uint64\<close>, so it wraps).\<close>

definition sha256_padding :: "nat \<Rightarrow> byte list" where
  "sha256_padding len =
     (0x80 # replicate ((if len mod 64 < 56 then 56 - len mod 64 else 64 + 56 - len mod 64) - 1) 0)
     @ be_bytes64 (push_bit 3 (of_nat len))"

fun sha_out :: "sha_state \<Rightarrow> byte list" where
  "sha_out (h0, h1, h2, h3, h4, h5, h6, h7) =
     concat (map be_bytes32 [h0, h1, h2, h3, h4, h5, h6, h7])"

text \<open>The hasher \<^verbatim>\<open>sha256.New()\<close> is modelled by the bytes written to it so far;
  \<^verbatim>\<open>Sum(nil)\<close> is the digest of these bytes.\<close>

definition sha256_Sum :: "byte list \<Rightarrow> byte list" where
  "sha256_Sum m = sha_out (sha_block sha256_init (m @ sha256_padding (length m)))"

definition hextable :: string where
  "hextable = ''0123456789abcdef''"

definition hex_EncodeToString :: "byte list \<Rightarrow> string" where
  "hex_EncodeToString src =
     concat (map (\<lambda>v. [hextable ! unat (drop_bit 4 v), hextable ! unat (v AND 0x0f)]) src)"

subsection \<open>strings\<close>

definition strings_HasSuffix :: "string \<Rightarrow> string \<Rightarrow> bool" where
  "strings_HasSuffix s suf = (length s \<ge> length suf \<and> drop (length s - length suf) s = suf)"

subsection \<open>hash/crc32\<close>

fun crc32_bit :: "nat \<Rightarrow> u32 \<Rightarrow> u32" where
  "crc32_bit 0 c = c"
| "crc32_bit (Suc n) c =
     crc32_bit n (if bit c 0 then drop_bit 1 c XOR 0xedb88320 else drop_bit 1 c)"

definition crc32_byte :: "u32 \<Rightarrow> byte \<Rightarrow> u32" where
  "crc32_byte c b = crc32_bit 8 (c XOR ucast b)"

definition crc32_Update :: "u32 \<Rightarrow> byte list \<Rightarrow> u32" where
  "crc32_Update crc p = NOT (foldl crc32_byte (NOT crc) p)"

definition crc32_ChecksumIEEE :: "byte list \<Rightarrow> u32" where
  "crc32_ChecksumIEEE p = crc32_Update 0 p"

subsection \<open>compress/flate\<close>

text \<open>
  The decompressor reads its input bit by bit, least significant bit of each byte first.
  The input is modelled as the list of the bits not read yet; \<open>align\<close> drops the
  rest of the byte being read. A Huffman decoder is kept in canonical form: the number
  of codes of each length and the symbols in the order of their codes. As
  \<^verbatim>\<open>huffmanDecoder.init\<close> does, \<open>huff_init\<close> refuses a code that is neither complete nor the
  single code of length one, and \<open>huffSym\<close> asks for \<open>hmin\<close> bits before it decodes.
\<close>

definition bits_of_byte :: "byte \<Rightarrow> bits" where
  "bits_of_byte b = map (bit b) [0, 1, 2, 3, 4, 5, 6, 7]"

definition bits_of :: "byte list \<Rightarrow> bits" where
  "bits_of p = concat (map bits_of_byte p)"

fun nat_of_bits :: "bits \<Rightarrow> nat" where
  "nat_of_bits [] = 0"
| "nat_of_bits (b # bs) = (if b then 1 else 0) + 2 * nat_of_bits bs"

fun bytes_of_bits :: "bits \<Rightarrow> byte list" where
  "bytes_of_bits (b0 # b1 # b2 # b3 # b4 # b5 # b6 # b7 # bs) =
     of_nat (nat_of_bits [b0, b1, b2, b3, b4, b5, b6, b7]) # bytes_of_bits bs"
| "bytes_of_bits _ = []"

definition align :: "bits \<Rightarrow> bits" where
  "align bs = drop (length bs mod 8) bs"

definition read_bits :: "nat \<Rightarrow> bits \<Rightarrow> go_error + nat \<times> bits" where
  "read_bits n bs =
     (if length bs < n then Inl ErrUnexpectedEOF else Inr (nat_of_bits (take n bs), drop n bs))"

record huffmanDecoder =
  hmin :: nat
  counts :: "nat list"
  symbols :: "nat list"

definition count_of :: "nat list \<Rightarrow> nat \<Rightarrow> nat" where
  "count_of lengths l = length (filter (\<lambda>n. n = l) lengths)"

definition symbols_of :: "nat list \<Rightarrow> nat \<Rightarrow> nat list" where
  "symbols_of lengths l = filter (\<lambda>s. lengths ! s = l) [0..<length lengths]"

definition next_code :: "nat \<Rightarrow> nat \<Rightarrow> nat" where
  "next_code c code = 2 * code + c"

definition huff_init :: "nat list \<Rightarrow> huffmanDecoder option" where
  "huff_init lengths =
     (let nz = filter (\<lambda>n. n \<noteq> 0) lengths;
          mn = (if nz = [] then 0 else fold min nz (hd nz));
          mx = fold max lengths 0;
          cnt = map (count_of lengths) [1..<Suc mx];
          code = fold next_code cnt 0
      in if mx \<noteq> 0 \<and> code \<noteq> 2 ^ mx \<and> \<not> (code = 1 \<and> mx = 1) then None
         else Some \<lparr>hmin = mn, counts = cnt,
                symbols = concat (map (symbols_of lengths) [1..<Suc mx])\<rparr>)"

fun decode_sym :: "nat list \<Rightarrow> nat list \<Rightarrow> nat \<Rightarrow> nat \<Rightarrow> nat \<Rightarrow> bits \<Rightarrow> go_error + nat \<times> bits" where
  "decode_sym [] syms code first index bs = Inl CorruptInputError"
| "decode_sym (c # cs) syms code first index [] = Inl ErrUnexpectedEOF"
| "decode_sym (c # cs) syms code first index (b # bs) =
     (let code' = code + (if b then 1 else 0)
      in if code' < first + c then Inr (syms ! (index + (code' - first)), bs)
         else decode_sym cs syms (2 * code') (2 * (first + c)) (index + c) bs)"

definition huffSym :: "huffmanDecoder \<Rightarrow> bits \<Rightarrow> go_error + nat \<times> bits" where
  "huffSym h bs =
     (if length bs < hmin h then Inl ErrUnexpectedEOF
      else decode_sym (counts h) (symbols h) 0 0 0 bs)"

lemma read_bits_length: "read_bits n bs = Inr (v, r) \<Longrightarrow> length r \<le> length bs"
  by (auto simp: read_bits_def split: if_splits)

lemma decode_sym_length:
  "decode_sym cs syms code first index bs = Inr (v, r) \<Longrightarrow> length r < length bs"
proof (induction cs syms code first index bs rule: decode_sym.induct)
  case (3 c cs syms code first index b bs)
  then show ?case by (auto simp: Let_def split: if_splits)
qed simp_all

lemma huffSym_length: "huffSym h bs = Inr (v, r) \<Longrightarrow> length r < length bs"
  by (auto simp: huffSym_def split: if_splits dest: decode_sym_length)

fun copy_hist :: "nat \<Rightarrow> nat \<Rightarrow> byte list \<Rightarrow> byte list" where
  "copy_hist 0 dist out = out"
| "copy_hist (Suc n) dist out = copy_hist n dist (out @ [out ! (length out - dist)])"

text \<open>The length and the number of extra bits of a length symbol (257..285).\<close>

definition length_code :: "nat \<Rightarrow> (nat \<times> nat) option" where
  "length_code v =
     (if v < 265 then Some (v - (257 - 3), 0)
      else if v < 269 then Some (v * 2 - (265 * 2 - 11), 1)
      else if v < 273 then Some (v * 4 - (269 * 4 - 19), 2)
      else if v < 277 then Some (v * 8 - (273 * 8 - 35), 3)
      else if v < 281 then Some (v * 16 - (277 * 16 - 67), 4)
      else if v < 285 then Some (v * 32 - (281 * 32 - 131), 5)
      else if v < 286 then Some (258, 0)
      else None)"

definition read_dist :: "huffmanDecoder option \<Rightarrow> bits \<Rightarrow> go_error + nat \<times> bits" where
  "read_dist hdist bs =
     (case (case hdist of
              None \<Rightarrow> (if length bs < 5 then Inl ErrUnexpectedEOF
                        else Inr (nat_of_bits (rev (take 5 bs)), drop 5 bs))
            | Some h \<Rightarrow> huffSym h bs) of
        Inl e \<Rightarrow> Inl e
      | Inr (dist, bs1) \<Rightarrow>
          if dist < 4 then Inr (dist + 1, bs1)
          else if dist < 30 then
            (let nb = (dist - 2) div 2;
                 extra = push_bit nb (dist mod 2)
             in case read_bits nb bs1 of
                  Inl e \<Rightarrow> Inl e
                | Inr (x, bs2) \<Rightarrow> Inr (2 ^ (nb + 1) + 1 + (extra + x), bs2))
          else Inl CorruptInputError)"

lemma read_dist_length: "read_dist hdist bs = Inr (v, r) \<Longrightarrow> length r \<le> length bs"
  by (auto simp: read_dist_def Let_def split: option.splits sum.splits if_splits
      dest!: huffSym_length read_bits_length)

function huffmanBlock ::
  "huffmanDecoder \<Rightarrow> huffmanDecoder option \<Rightarrow> bits \<Rightarrow> byte list \<Rightarrow> byte list \<times> (go_error + bits)" where
  "huffmanBlock hl hdist bs out =
     (case huffSym hl bs of
        Inl e \<Rightarrow> (out, Inl e)
      | Inr (v, bs1) \<Rightarrow>
          if v < 256 then huffmanBlock hl hdist bs1 (out @ [of_nat v])
          else if v = 256 then (out, Inr bs1)
          else (case length_code v of
                  None \<Rightarrow> (out, Inl CorruptInputError)
                | Some (len, n) \<Rightarrow>
                    (case read_bits n bs1 of
                       Inl e \<Rightarrow> (out, Inl e)
                     | Inr (x, bs2) \<Rightarrow>
                         (case read_dist hdist bs2 of
                            Inl e \<Rightarrow> (out, Inl e)
                          | Inr (dist, bs3) \<Rightarrow>
                              if dist > length out then (out, Inl CorruptInputError)
                              else huffmanBlock hl hdist bs3 (copy_hist (len + x) dist out)))))"
  by pat_completeness auto
termination
  apply (relation "measure (\<lambda>(hl, hdist, bs, out). length bs)")
    apply simp
   apply (auto dest!: huffSym_length read_bits_length read_dist_length)
  done

declare huffmanBlock.simps [simp del]

subsection \<open>Block headers\<close>

definition codeOrder :: "nat list" where
  "codeOrder = [16, 17, 18, 0, 8, 7, 9, 6, 10, 5, 11, 4, 12, 3, 13, 2, 14, 1, 15]"

fun read_codebits :: "nat \<Rightarrow> bits \<Rightarrow> nat list" where
  "read_codebits 0 bs = []"
| "read_codebits (Suc n) bs = nat_of_bits (take 3 bs) # read_codebits n (drop 3 bs)"

definition repeat_code :: "nat \<Rightarrow> nat list \<Rightarrow> nat \<times> nat \<times> nat" where
  "repeat_code x lens =
     (if x = 16 then (3, 2, last lens) else if x = 17 then (3, 3, 0) else (11, 7, 0))"

function read_lengths ::
  "huffmanDecoder \<Rightarrow> nat \<Rightarrow> nat list \<Rightarrow> bits \<Rightarrow> go_error + nat list \<times> bits" where
  "read_lengths h n lens bs =
     (if length lens \<ge> n then Inr (lens, bs)
      else case huffSym h bs of
        Inl e \<Rightarrow> Inl e
      | Inr (x, bs1) \<Rightarrow>
          if x < 16 then read_lengths h n (lens @ [x]) bs1
          else if x = 16 \<and> lens = [] then Inl CorruptInputError
          else
            (case repeat_code x lens of
               (rep, nb, b) \<Rightarrow>
                 (case read_bits nb bs1 of
                    Inl e \<Rightarrow> Inl e
                  | Inr (r, bs2) \<Rightarrow>
                      if length lens + (rep + r) > n then Inl CorruptInputError
                      else read_lengths h n (lens @ replicate (rep + r) b) bs2)))"
  by pat_completeness auto
termination
  by (relation "measure (\<lambda>(h, n, lens, bs). n - length lens)")
     (auto simp: repeat_code_def split: if_splits)

declare read_lengths.simps [simp del]

lemma read_lengths_length: "read_lengths h n lens bs = Inr (ls, r) \<Longrightarrow> length r \<le> length bs"
proof (induction h n lens bs rule: read_lengths.induct)
  case (1 h n lens bs)
  show ?case
  proof (cases "length lens \<ge> n")
    case True
    with "1.prems" show ?thesis by (simp add: read_lengths.simps)
  next
    case False
    from "1.prems" False obtain x bs1 where hs: "huffSym h bs = Inr (x, bs1)"
      by (auto simp: read_lengths.simps [of h n lens bs] split: sum.splits)
    then have l1: "length bs1 < length bs" by (rule huffSym_length)
    show ?thesis
    proof (cases "x < 16")
      case True
      with "1.prems" False hs have "read_lengths h n (lens @ [x]) bs1 = Inr (ls, r)"
        by (simp add: read_lengths.simps [of h n lens bs])
      with "1.IH"(1) False hs True have "length r \<le> length bs1" by fastforce
      with l1 show ?thesis by simp
    next
      case x16: False
      obtain rep nb b where rc: "repeat_code x lens = (rep, nb, b)"
        by (cases "repeat_code x lens")
      from "1.prems" False hs x16 have ne: "\<not> (x = 16 \<and> lens = [])"
        by (auto simp: read_lengths.simps [of h n lens bs])
      from "1.prems" False hs x16 ne rc obtain rr bs2 where
        rb: "read_bits nb bs1 = Inr (rr, bs2)"
        and ok: "\<not> length lens + (rep + rr) > n"
        and rec: "read_lengths h n (lens @ replicate (rep + rr) b) bs2 = Inr (ls, r)"
        by (auto simp: read_lengths.simps [of h n lens bs] split: sum.splits if_splits)
      from "1.IH"(2) False hs x16 ne rc rb ok rec
      have "length r \<le> length bs2" by fastforce
      with read_bits_length [OF rb] l1 show ?thesis by simp
    qed
  qed
qed

text \<open>\<open>readHuffman\<close>: the header of a dynamic block. The code lengths of the code
  length alphabet come in the order \<open>codeOrder\<close>; the ones that are not sent are 0.\<close>

definition codebit_of :: "nat list \<Rightarrow> nat \<Rightarrow> nat" where
  "codebit_of cb s =
     (case List.find (\<lambda>(i, c). c = s) (zip [0..<length cb] codeOrder) of
        None \<Rightarrow> 0
      | Some (i, c) \<Rightarrow> cb ! i)"

definition readHuffman :: "bits \<Rightarrow> go_error + (huffmanDecoder \<times> huffmanDecoder) \<times> bits" where
  "readHuffman bs =
     (if length bs < 5 + 5 + 4 then Inl ErrUnexpectedEOF
      else
        let nlit = nat_of_bits (take 5 bs) + 257;
            ndist = nat_of_bits (take 5 (drop 5 bs)) + 1;
            nclen = nat_of_bits (take 4 (drop 10 bs)) + 4;
            bs1 = drop 14 bs
        in if nlit > 286 then Inl CorruptInputError
           else if ndist > 30 then Inl CorruptInputError
           else if length bs1 < 3 * nclen then Inl ErrUnexpectedEOF
           else
             let cb = read_codebits nclen bs1;
                 codebits = map (codebit_of cb) [0..<19]
             in case huff_init codebits of
                  None \<Rightarrow> Inl CorruptInputError
                | Some h1 \<Rightarrow>
                    (case read_lengths h1 (nlit + ndist) [] (drop (3 * nclen) bs1) of
                       Inl e \<Rightarrow> Inl e
                     | Inr (lens, bs2) \<Rightarrow>
                         (case (huff_init (take nlit lens), huff_init (drop nlit lens)) of
                            (Some hl, Some h2) \<Rightarrow>
                              Inr ((hl\<lparr>hmin := max (hmin hl) (lens ! 256)\<rparr>, h2), bs2)
                          | _ \<Rightarrow> Inl CorruptInputError)))"

lemma readHuffman_length: "readHuffman bs = Inr (hs, r) \<Longrightarrow> length r < length bs"
  by (auto simp: readHuffman_def Let_def split: if_splits option.splits sum.splits
      dest!: read_lengths_length)

definition fixedHuffmanDecoder :: huffmanDecoder where
  "fixedHuffmanDecoder =
     the (huff_init (replicate 144 8 @ replicate 112 9 @ replicate 24 7 @ replicate 8 8))"

text \<open>\<open>dataBlock\<close>: a stored block.\<close>

definition dataBlock :: "bits \<Rightarrow> byte list \<Rightarrow> byte list \<times> (go_error + bits)" where
  "dataBlock bs out =
     (let bs1 = align bs
      in if length bs1 < 32 then (out, Inl ErrUnexpectedEOF)
         else
           let n = nat_of_bits (take 16 bs1);
               nn = nat_of_bits (take 16 (drop 16 bs1));
               bs2 = drop 32 bs1
           in if nn \<noteq> 65535 - n then (out, Inl CorruptInputError)
              else if length bs2 < 8 * n then (out @ bytes_of_bits bs2, Inl ErrUnexpectedEOF)
              else (out @ bytes_of_bits (take (8 * n) bs2), Inr (drop (8 * n) bs2)))"

lemma dataBlock_length: "dataBlock bs out = (out', Inr r) \<Longrightarrow> length r \<le> length bs"
  by (auto simp: dataBlock_def Let_def align_def split: if_splits)

lemma huffmanBlock_length: "huffmanBlock hl hdist bs out = (out', Inr r) \<Longrightarrow> length r < length bs"
proof (induction hl hdist bs out rule: huffmanBlock.induct)
  case (1 hl hdist bs out)
  from "1.prems" obtain v bs1 where hs: "huffSym hl bs = Inr (v, bs1)"
    by (auto simp: huffmanBlock.simps [of hl hdist bs out] split: sum.splits)
  then have l1: "length bs1 < length bs" by (rule huffSym_length)
  consider (lit) "v < 256" | (eob) "v = 256" | (len) "\<not> v < 256" "v \<noteq> 256" by blast
  then show ?case
  proof cases
    case lit
    with "1.prems" hs have "huffmanBlock hl hdist bs1 (out @ [of_nat v]) = (out', Inr r)"
      by (simp add: huffmanBlock.simps [of hl hdist bs out])
    with "1.IH"(1) hs lit have "length r < length bs1" by fastforce
    with l1 show ?thesis by simp
  next
    case eob
    with "1.prems" hs l1 show ?thesis by (simp add: huffmanBlock.simps [of hl hdist bs out])
  next
    case len
    from "1.prems" hs len obtain ln n x bs2 dist bs3 where
      lc: "length_code v = Some (ln, n)" and rb: "read_bits n bs1 = Inr (x, bs2)"
      and rd: "read_dist hdist bs2 = Inr (dist, bs3)" and ok: "\<not> dist > length out"
      and rec: "huffmanBlock hl hdist bs3 (copy_hist (ln + x) dist out) = (out', Inr r)"
      by (auto simp: huffmanBlock.simps [of hl hdist bs out] split: sum.splits option.splits if_splits)
    from "1.IH"(2) hs len lc rb rd ok rec
    have "length r < length bs3" by fastforce
    with read_bits_length [OF rb] read_dist_length [OF rd] l1 show ?thesis by simp
  qed
qed

text \<open>\<open>nextBlock\<close> and the loop over the blocks of one DEFLATE stream. The result is the
  output and either the error that ended the stream or the bytes that follow it.\<close>

function inflate_blocks :: "bits \<Rightarrow> byte list \<Rightarrow> byte list \<times> (go_error + byte list)" where
  "inflate_blocks bs out =
     (if length bs < 1 + 2 then (out, Inl ErrUnexpectedEOF)
      else
        let final = hd bs;
            typ = nat_of_bits (take 2 (tl bs));
            bs1 = drop 3 bs;
            blk = (if typ = 0 then dataBlock bs1 out
                   else if typ = 1 then huffmanBlock fixedHuffmanDecoder None bs1 out
                   else if typ = 2 then
                     (case readHuffman bs1 of
                        Inl e \<Rightarrow> (out, Inl e)
                      | Inr ((hl, h2), bs2) \<Rightarrow> huffmanBlock hl (Some h2) bs2 out)
                   else (out, Inl CorruptInputError))
        in case blk of
             (out', Inl e) \<Rightarrow> (out', Inl e)
           | (out', Inr bs3) \<Rightarrow>
               if final then (out', Inr (bytes_of_bits (align bs3)))
               else inflate_blocks bs3 out')"
  by pat_completeness auto
termination
  apply (relation "measure (\<lambda>(bs, out). length bs)")
   apply simp
  apply (auto split: if_splits sum.splits
      dest!: dataBlock_length [OF sym] huffmanBlock_length [OF sym] readHuffman_length)
  done

declare inflate_blocks.simps [simp del]

definition inflate :: "byte list \<Rightarrow> byte list \<times> (go_error + byte list)" where
  "inflate p = inflate_blocks (bits_of p) []"

lemma bytes_of_bits_length: "length (bytes_of_bits bs) \<le> length bs div 8"
  by (induction bs rule: bytes_of_bits.induct) simp_all

lemma bits_of_length: "length (bits_of p) = 8 * length p"
  by (induction p) (simp_all add: bits_of_def bits_of_byte_def)

lemma inflate_blocks_length:
  "inflate_blocks bs out = (out', Inr r) \<Longrightarrow> 8 * length r \<le> length bs"
proof (induction bs out rule: inflate_blocks.induct)
  case (1 bs out)
  define blk where "blk =
    (if nat_of_bits (take 2 (tl bs)) = 0 then dataBlock (drop 3 bs) out
     else if nat_of_bits (take 2 (tl bs)) = 1 then huffmanBlock fixedHuffmanDecoder None (drop 3 bs) out
     else if nat_of_bits (take 2 (tl bs)) = 2 then
       (case readHuffman (drop 3 bs) of
          Inl e \<Rightarrow> (out, Inl e)
        | Inr ((hl, h2), bs2) \<Rightarrow> huffmanBlock hl (Some h2) bs2 out)
     else (out, Inl CorruptInputError))"
  from "1.prems" have ge: "\<not> length bs < 1 + 2"
    by (auto simp: inflate_blocks.simps [of bs out])
  from "1.prems" ge obtain out1 bs3 where blk: "blk = (out1, Inr bs3)"
    and fin: "if hd bs then (out', Inr r) = (out1, Inr (bytes_of_bits (align bs3)))
              else inflate_blocks bs3 out1 = (out', Inr r)"
    unfolding blk_def
    by (auto simp: inflate_blocks.simps [of bs out] Let_def split: prod.splits sum.splits if_splits)
  from blk have l3: "length bs3 \<le> length bs"
    unfolding blk_def
    by (auto split: if_splits sum.splits
        dest!: dataBlock_length huffmanBlock_length readHuffman_length)
  show ?case
  proof (cases "hd bs")
    case True
    with fin have "r = bytes_of_bits (align bs3)" by simp
    with bytes_of_bits_length [of "align bs3"] have "8 * length r \<le> length bs3"
      by (simp add: align_def)
    with l3 show ?thesis by simp
  next
    case False
    with fin have rec: "inflate_blocks bs3 out1 = (out', Inr r)" by simp
    from "1.IH" ge blk [unfolded blk_def] False rec have "8 * length r \<le> length bs3"
      by fastforce
    with l3 show ?thesis by simp
  qed
qed

lemma inflate_length: "inflate p = (out, Inr r) \<Longrightarrow> length r \<le> length p"
  by (auto simp: inflate_def bits_of_length dest!: inflate_blocks_length)

subsection \<open>compress/gzip\<close>

text \<open>
  \<^verbatim>\<open>readHeader\<close> checks the magic number and the method, skips the optional extra
  field, name and comment (a string is at most 512 bytes long, its final zero included)
  and checks the optional header checksum. \<^verbatim>\<open>Read\<close> checks the CRC-32 and the size of
  each member and, since a reader is in multistream mode by default, goes on with the
  next member until the input ends.
\<close>

definition le16 :: "byte list \<Rightarrow> nat" where
  "le16 p = unat (p ! 0) + 256 * unat (p ! 1)"

definition le32 :: "byte list \<Rightarrow> u32" where
  "le32 p = ucast (p ! 0) OR push_bit 8 (ucast (p ! 1)) OR push_bit 16 (ucast (p ! 2))
            OR push_bit 24 (ucast (p ! 3))"

type_synonym hdr_state = "u32 \<times> byte list"

definition hdr_extra :: "byte \<Rightarrow> hdr_state \<Rightarrow> go_error + hdr_state" where
  "hdr_extra flg s =
     (case s of (digest, r) \<Rightarrow>
        if flg AND 4 = 0 then Inr s
        else if length r < 2 then Inl ErrUnexpectedEOF
        else
          let digest1 = crc32_Update digest (take 2 r);
              n = le16 r;
              r1 = drop 2 r
          in if length r1 < n then Inl ErrUnexpectedEOF
             else Inr (crc32_Update digest1 (take n r1), drop n r1))"

definition hdr_string :: "byte \<Rightarrow> byte \<Rightarrow> hdr_state \<Rightarrow> go_error + hdr_state" where
  "hdr_string flg flag s =
     (case s of (digest, r) \<Rightarrow>
        if flg AND flag = 0 then Inr s
        else
          let str = takeWhile (\<lambda>b. b \<noteq> 0) r
          in if length str \<ge> 512 then Inl ErrHeader
             else if length str = length r then Inl ErrUnexpectedEOF
             else Inr (crc32_Update digest (take (length str + 1) r), drop (length str + 1) r))"

definition hdr_crc :: "byte \<Rightarrow> hdr_state \<Rightarrow> go_error + hdr_state" where
  "hdr_crc flg s =
     (case s of (digest, r) \<Rightarrow>
        if flg AND 2 = 0 then Inr s
        else if length r < 2 then Inl ErrUnexpectedEOF
        else if le16 r \<noteq> unat (ucast digest :: 16 word) then Inl ErrHeader
        else Inr (digest, drop 2 r))"

definition gzip_readHeader :: "byte list \<Rightarrow> go_error + byte list" where
  "gzip_readHeader p =
     (if length p < 10 then Inl (if p = [] then EOF else ErrUnexpectedEOF)
      else if p ! 0 \<noteq> 0x1f \<or> p ! 1 \<noteq> 0x8b \<or> p ! 2 \<noteq> 8 then Inl ErrHeader
      else
        let flg = p ! 3
        in case hdr_extra flg (crc32_ChecksumIEEE (take 10 p), drop 10 p) of
             Inl e \<Rightarrow> Inl e
           | Inr s1 \<Rightarrow>
               (case hdr_string flg 8 s1 of
                  Inl e \<Rightarrow> Inl e
                | Inr s2 \<Rightarrow>
                    (case hdr_string flg 16 s2 of
                       Inl e \<Rightarrow> Inl e
                     | Inr s3 \<Rightarrow>
                         (case hdr_crc flg s3 of
                            Inl e \<Rightarrow> Inl e
                          | Inr (digest, r) \<Rightarrow> Inr r))))"

lemma hdr_extra_length: "hdr_extra flg (d, r) = Inr (d', r') \<Longrightarrow> length r' \<le> length r"
  by (auto simp: hdr_extra_def Let_def split: if_splits)

lemma hdr_string_length: "hdr_string flg m (d, r) = Inr (d', r') \<Longrightarrow> length r' \<le> length r"
  by (auto simp: hdr_string_def Let_def split: if_splits)

lemma hdr_crc_length: "hdr_crc flg (d, r) = Inr (d', r') \<Longrightarrow> length r' \<le> length r"
  by (auto simp: hdr_crc_def split: if_splits)

lemma gzip_readHeader_length: "gzip_readHeader p = Inr r \<Longrightarrow> length r + 10 \<le> length p"
  by (fastforce simp: gzip_readHeader_def Let_def split: if_splits sum.splits
      dest!: hdr_extra_length hdr_string_length hdr_crc_length)

text \<open>\<open>NewReader\<close> reads the first header. The reader it returns is modelled by the bytes
  that follow the header.\<close>

definition gzip_NewReader :: "byte list \<Rightarrow> go_error + byte list" where
  "gzip_NewReader p = gzip_readHeader p"

text \<open>All the calls of \<open>Read\<close> until the first error (\<open>EOF\<close> included): the bytes they
  deliver and that error.\<close>

function gzip_Read :: "byte list \<Rightarrow> byte list \<times> go_error" where
  "gzip_Read r =
     (case inflate r of
        (out, Inl e) \<Rightarrow> (out, e)
      | (out, Inr trailer) \<Rightarrow>
          if length trailer < 8 then (out, ErrUnexpectedEOF)
          else if le32 (take 4 trailer) \<noteq> crc32_Update 0 out
                  \<or> le32 (take 4 (drop 4 trailer)) \<noteq> of_nat (length out)
          then (out, ErrChecksum)
          else (case gzip_readHeader (drop 8 trailer) of
                  Inl e \<Rightarrow> (out, e)
                | Inr r' \<Rightarrow> (case gzip_Read r' of (out', e) \<Rightarrow> (out @ out', e))))"
  by pat_completeness auto
termination
  apply (relation "measure length")
   apply simp
  apply (auto dest!: inflate_length [OF sym] gzip_readHeader_length)
  done

declare gzip_Read.simps [simp del]

definition gunzip :: "byte list \<Rightarrow> go_error + byte list \<times> go_error" where
  "gunzip p = (case gzip_NewReader p of Inl e \<Rightarrow> Inl e | Inr r \<Rightarrow> Inr (gzip_Read r))"







subsection \<open>os.File\<close>

text \<open>
  An open file: its bytes, the read position and whether \<^verbatim>\<open>Seek\<close> works on it (it
  does on a regular file and fails on a pipe). A \<^verbatim>\<open>*os.File\<close> that is \<^verbatim>\<open>nil\<close> is
  \<open>None\<close>: every method of a nil file returns \<^verbatim>\<open>ErrInvalid\<close>. \<open>file_Read f n\<close> is a
  \<^verbatim>\<open>Read\<close> into a buffer of \<open>n\<close> bytes.
\<close>

record os_File =
  content :: "byte list"
  pos :: nat
  seekable :: bool

definition unread :: "os_File option \<Rightarrow> byte list" where
  "unread f = (case f of None \<Rightarrow> [] | Some fl \<Rightarrow> drop (pos fl) (content fl))"

definition file_Read :: "os_File option \<Rightarrow> nat \<Rightarrow> byte list \<times> go_error option \<times> os_File option" where
  "file_Read f n =
     (case f of
        None \<Rightarrow> ([], Some ErrInvalid, None)
      | Some fl \<Rightarrow>
          let p = take n (drop (pos fl) (content fl))
          in if p = [] \<and> 0 < n then ([], Some EOF, f)
             else (p, None, Some (fl\<lparr>pos := pos fl + length p\<rparr>)))"

definition file_Seek0 :: "os_File option \<Rightarrow> go_error option \<times> os_File option" where
  "file_Seek0 f =
     (case f of
        None \<Rightarrow> (Some ErrInvalid, None)
      | Some fl \<Rightarrow> if seekable fl then (None, Some (fl\<lparr>pos := 0\<rparr>)) else (Some ESPIPE, f))"

subsection \<open>bufio.Reader\<close>

text \<open>
  A \<^verbatim>\<open>bufio.Reader\<close> of 100 bytes, the size \<^verbatim>\<open>armor.Decode\<close> asks for: \<open>buf\<close> holds the
  bytes read from the file and not yet returned, \<open>rerr\<close> the pending read error.
\<close>

record bufio_Reader =
  buf :: "byte list"
  rd :: "os_File option"
  rerr :: "go_error option"

definition bufSize :: nat where
  "bufSize = 100"

definition bufio_NewReaderSize :: "os_File option \<Rightarrow> bufio_Reader" where
  "bufio_NewReaderSize f = \<lparr>buf = [], rd = f, rerr = None\<rparr>"

definition bufio_fill :: "bufio_Reader \<Rightarrow> bufio_Reader" where
  "bufio_fill b =
     (case file_Read (rd b) (bufSize - length (buf b)) of
        (p, e, f) \<Rightarrow> b\<lparr>buf := buf b @ p, rd := f, rerr := e\<rparr>)"

function bufio_ReadSlice :: "byte \<Rightarrow> bufio_Reader \<Rightarrow> byte list \<times> go_error option \<times> bufio_Reader" where
  "bufio_ReadSlice delim b =
     (if delim \<in> set (buf b) then
        (let i = length (takeWhile (\<lambda>c. c \<noteq> delim) (buf b))
         in (take (i + 1) (buf b), None, b\<lparr>buf := drop (i + 1) (buf b)\<rparr>))
      else if rerr b \<noteq> None then (buf b, rerr b, b\<lparr>buf := [], rerr := None\<rparr>)
      else if length (buf b) \<ge> bufSize then (buf b, Some ErrBufferFull, b\<lparr>buf := []\<rparr>)
      else bufio_ReadSlice delim (bufio_fill b))"
  by pat_completeness auto
termination
  by (relation "measure (\<lambda>(d, b). (if rerr b = None then 1 else 0) + (bufSize - length (buf b)))")
     (auto simp: bufio_fill_def file_Read_def Let_def split: option.splits if_splits)

declare bufio_ReadSlice.simps [simp del]

definition bufio_ReadLine :: "bufio_Reader \<Rightarrow> byte list \<times> bool \<times> go_error option \<times> bufio_Reader" where
  "bufio_ReadLine b =
     (case bufio_ReadSlice 10 b of
        (line, err, b1) \<Rightarrow>
          if err = Some ErrBufferFull then
            (if line \<noteq> [] \<and> last line = 13
             then (butlast line, True, None, b1\<lparr>buf := 13 # buf b1\<rparr>)
             else (line, True, None, b1))
          else if line = [] then ([], False, err, b1)
          else
            (let drp = (if last line = 10
                        then (if length line > 1 \<and> line ! (length line - 2) = 13 then 2 else 1)
                        else 0)
             in (take (length line - drp) line, False, None, b1)))"

definition stream :: "bufio_Reader \<Rightarrow> byte list" where
  "stream b = buf b @ unread (rd b)"

lemma take_drop_min: "take n xs @ drop (min (length xs) n) xs = xs"
  by (cases "n \<le> length xs") (simp_all add: min_def)

lemma file_Read_stream: "file_Read f n = (p, e, f') \<Longrightarrow> p @ unread f' = unread f"
proof (cases f)
  case None
  then show "file_Read f n = (p, e, f') \<Longrightarrow> p @ unread f' = unread f"
    by (auto simp: file_Read_def unread_def)
next
  case (Some fl)
  assume r: "file_Read f n = (p, e, f')"
  show "p @ unread f' = unread f"
  proof (cases "take n (drop (pos fl) (content fl)) = [] \<and> 0 < n")
    case True
    with r Some show ?thesis by (auto simp: file_Read_def unread_def Let_def)
  next
    case False
    with r Some have p: "p = take n (drop (pos fl) (content fl))"
      and f': "f' = Some (fl\<lparr>pos := pos fl + length p\<rparr>)"
      by (auto simp: file_Read_def Let_def)
    have "unread f' = drop (min (length (drop (pos fl) (content fl))) n) (drop (pos fl) (content fl))"
      unfolding f' p unread_def by (simp add: add.commute)
    with take_drop_min [of n "drop (pos fl) (content fl)"] p Some show ?thesis
      by (simp add: unread_def)
  qed
qed


lemma bufio_fill_stream: "stream (bufio_fill b) = stream b"
  by (cases "file_Read (rd b) (bufSize - length (buf b))")
     (auto simp: bufio_fill_def stream_def dest: file_Read_stream)

lemma bufio_fill_rerr: "rerr (bufio_fill b) \<noteq> Some ErrBufferFull"
  by (auto simp: bufio_fill_def file_Read_def Let_def split: option.splits)

lemma take_takeWhile_nonempty: "d \<in> set xs \<Longrightarrow> take (Suc (length (takeWhile (\<lambda>c. c \<noteq> d) xs))) xs \<noteq> []"
  by (cases xs) auto

lemma bufio_ReadSlice_props:
  "bufio_ReadSlice d b = (line, e, b') \<Longrightarrow>
     line @ stream b' = stream b
     \<and> (e = None \<longrightarrow> line \<noteq> [])
     \<and> (rerr b \<noteq> Some ErrBufferFull \<longrightarrow>
          rerr b' \<noteq> Some ErrBufferFull \<and> (e = Some ErrBufferFull \<longrightarrow> bufSize \<le> length line))
     \<and> (e \<noteq> None \<longrightarrow> rerr b' \<noteq> Some ErrBufferFull)"
proof (induction d b rule: bufio_ReadSlice.induct)
  case (1 delim b)
  show ?case
  proof (cases "delim \<in> set (buf b)")
    case True
    with "1.prems" show ?thesis
      by (auto simp: bufio_ReadSlice.simps [of delim b] Let_def stream_def
          dest: take_takeWhile_nonempty)
  next
    case nd: False
    show ?thesis
    proof (cases "rerr b \<noteq> None")
      case True
      with "1.prems" nd show ?thesis
        by (auto simp: bufio_ReadSlice.simps [of delim b] stream_def)
    next
      case ne: False
      show ?thesis
      proof (cases "length (buf b) \<ge> bufSize")
        case True
        with "1.prems" nd ne show ?thesis
          by (auto simp: bufio_ReadSlice.simps [of delim b] stream_def)
      next
        case False
        with "1.prems" nd ne have "bufio_ReadSlice delim (bufio_fill b) = (line, e, b')"
          by (simp add: bufio_ReadSlice.simps [of delim b])
        from "1.IH" [OF nd _ False this] ne bufio_fill_rerr [of b] show ?thesis
          by (simp add: bufio_fill_stream)
      qed
    qed
  qed
qed

definition progress :: "bufio_Reader \<Rightarrow> nat" where
  "progress b = 2 * length (stream b) + (if rerr b = Some ErrBufferFull then 1 else 0)"

lemma bufio_ReadLine_progress:
  assumes "bufio_ReadLine b = (line, pfx, None, b')"
  shows "progress b' < progress b"
proof -
  obtain l0 e b1 where rs: "bufio_ReadSlice 10 b = (l0, e, b1)"
    by (cases "bufio_ReadSlice 10 b")
  note p = bufio_ReadSlice_props [OF rs]
  from p have st: "length (stream b) = length l0 + length (stream b1)"
    by (metis length_append)
  show ?thesis
  proof (cases "e = Some ErrBufferFull")
    case True
    with p have r1: "rerr b1 \<noteq> Some ErrBufferFull" by simp
    show ?thesis
    proof (cases "rerr b = Some ErrBufferFull")
      case True
      with assms rs \<open>e = Some ErrBufferFull\<close> r1 st show ?thesis
        by (cases l0) (auto simp: bufio_ReadLine_def progress_def stream_def split: if_splits)
    next
      case False
      with p \<open>e = Some ErrBufferFull\<close> have "bufSize \<le> length l0" by simp
      with assms rs \<open>e = Some ErrBufferFull\<close> r1 st False show ?thesis
        by (auto simp: bufio_ReadLine_def progress_def stream_def bufSize_def split: if_splits)
    qed
  next
    case False
    with assms rs p have ne: "l0 \<noteq> []"
      by (auto simp: bufio_ReadLine_def split: if_splits)
    from assms rs False ne have b': "b' = b1"
      by (auto simp: bufio_ReadLine_def Let_def split: if_splits)
    from p have "rerr b1 = Some ErrBufferFull \<longrightarrow> rerr b = Some ErrBufferFull" by blast
    with ne st show ?thesis
      unfolding b' progress_def by (cases l0) auto
  qed
qed

lemma bufio_ReadLine_stream:
  assumes "bufio_ReadLine b = (line, pfx, err, b')"
  shows "\<exists>z. stream b = line @ z @ stream b'"
proof -
  obtain l0 e b1 where rs: "bufio_ReadSlice 10 b = (l0, e, b1)"
    by (cases "bufio_ReadSlice 10 b")
  from bufio_ReadSlice_props [OF rs] have st: "stream b = l0 @ stream b1" by simp
  consider (full_cr) "e = Some ErrBufferFull" "l0 \<noteq> []" "last l0 = 13"
    | (full) "e = Some ErrBufferFull" "\<not> (l0 \<noteq> [] \<and> last l0 = 13)"
    | (empty) "e \<noteq> Some ErrBufferFull" "l0 = []"
    | (line) "e \<noteq> Some ErrBufferFull" "l0 \<noteq> []"
    by blast
  then show ?thesis
  proof cases
    case full_cr
    with assms rs have "line = butlast l0" "stream b' = 13 # stream b1"
      by (auto simp: bufio_ReadLine_def stream_def)
    with st full_cr have "stream b = line @ [] @ stream b'"
      by (metis append_butlast_last_id append.assoc append_Cons append_Nil)
    then show ?thesis by blast
  next
    case full
    with assms rs st have "stream b = line @ [] @ stream b'"
      by (auto simp: bufio_ReadLine_def)
    then show ?thesis by blast
  next
    case empty
    with assms rs st have "stream b = line @ [] @ stream b'"
      by (auto simp: bufio_ReadLine_def)
    then show ?thesis by blast
  next
    case line
    define k where "k = length l0 - (if last l0 = 10
                        then (if length l0 > 1 \<and> l0 ! (length l0 - 2) = 13 then 2 else 1)
                        else 0)"
    from line assms rs have "line = take k l0" "b' = b1"
      by (simp_all add: bufio_ReadLine_def Let_def k_def)
    with st have "stream b = line @ drop k l0 @ stream b'" by simp
    then show ?thesis by blast
  qed
qed

subsection \<open>bytes.TrimSpace\<close>

text \<open>The UTF-8 encodings of the runes for which \<open>unicode.IsSpace\<close> holds.\<close>

definition space_runes :: "byte list list" where
  "space_runes =
     [[0x09], [0x0a], [0x0b], [0x0c], [0x0d], [0x20], [0xc2, 0x85], [0xc2, 0xa0],
      [0xe1, 0x9a, 0x80],
      [0xe2, 0x80, 0x80], [0xe2, 0x80, 0x81], [0xe2, 0x80, 0x82], [0xe2, 0x80, 0x83],
      [0xe2, 0x80, 0x84], [0xe2, 0x80, 0x85], [0xe2, 0x80, 0x86], [0xe2, 0x80, 0x87],
      [0xe2, 0x80, 0x88], [0xe2, 0x80, 0x89], [0xe2, 0x80, 0x8a],
      [0xe2, 0x80, 0xa8], [0xe2, 0x80, 0xa9], [0xe2, 0x80, 0xaf], [0xe2, 0x81, 0x9f],
      [0xe3, 0x80, 0x80]]"

function trim_left :: "byte list \<Rightarrow> byte list" where
  "trim_left s =
     (case List.find (\<lambda>r. prefix r s) space_runes of
        None \<Rightarrow> s
      | Some r \<Rightarrow> if r = [] then s else trim_left (drop (length r) s))"
  by pat_completeness auto
termination
  by (relation "measure length") (auto simp: find_Some_iff prefix_def)

declare trim_left.simps [simp del]

function trim_right :: "byte list \<Rightarrow> byte list" where
  "trim_right s =
     (case List.find (\<lambda>r. suffix r s) space_runes of
        None \<Rightarrow> s
      | Some r \<Rightarrow> if r = [] then s else trim_right (take (length s - length r) s))"
  by pat_completeness auto
termination
  by (relation "measure length") (auto simp: find_Some_iff suffix_def)

declare trim_right.simps [simp del]

definition bytes_TrimSpace :: "byte list \<Rightarrow> byte list" where
  "bytes_TrimSpace s = trim_right (trim_left s)"

subsection \<open>openpgp/armor\<close>

text \<open>
  \<^verbatim>\<open>armor.Decode\<close>: skip lines until one starts with the armor start marker, then read
  the headers up to an empty line; a header line without a colon and a space sends the
  search back to the start marker. The block's type, headers and body are not needed by
  the caller, which only looks at the error, so the model returns the error and the file
  as the reads left it.
\<close>

definition armorStart :: "byte list" where
  "armorStart = bytes_of ''-----BEGIN ''"

definition armorEndOfLine :: "byte list" where
  "armorEndOfLine = bytes_of ''-----''"

function armor_garbage :: "bool \<Rightarrow> bufio_Reader \<Rightarrow> go_error option \<times> bufio_Reader"
  and armor_headers :: "bool \<Rightarrow> bufio_Reader \<Rightarrow> go_error option \<times> bufio_Reader" where
  "armor_garbage ignoreNext r =
     (case bufio_ReadLine r of
        (line, isPrefix, Some err, r') \<Rightarrow> (Some err, r')
      | (line, isPrefix, None, r') \<Rightarrow>
          if isPrefix \<or> ignoreNext then armor_garbage isPrefix r'
          else if length (bytes_TrimSpace line) > length armorStart + length armorEndOfLine
                  \<and> prefix armorStart (bytes_TrimSpace line)
          then armor_headers False r'
          else armor_garbage isPrefix r')"
| "armor_headers nextIsContinuation r =
     (case bufio_ReadLine r of
        (line, isPrefix, Some err, r') \<Rightarrow> (Some err, r')
      | (line, isPrefix, None, r') \<Rightarrow>
          if nextIsContinuation then armor_headers isPrefix r'
          else if bytes_TrimSpace line = [] then (None, r')
          else if \<not> sublist (bytes_of '': '') (bytes_TrimSpace line) then armor_garbage False r'
          else armor_headers isPrefix r')"
  by pat_completeness auto
termination
  by (relation "measure (\<lambda>x. case x of Inl (i, r) \<Rightarrow> progress r | Inr (c, r) \<Rightarrow> progress r)")
     (auto dest!: bufio_ReadLine_progress [OF sym])

declare armor_garbage.simps [simp del] armor_headers.simps [simp del]

definition armor_Decode :: "os_File option \<Rightarrow> go_error option \<times> os_File option" where
  "armor_Decode f = (case armor_garbage False (bufio_NewReaderSize f) of (err, r) \<Rightarrow> (err, rd r))"

text \<open>
  The other direction, \<^verbatim>\<open>armor.Encode\<close> and the \<^verbatim>\<open>Close\<close> of its writer: the start line
  with the block type, one line for each header, an empty line, the payload in base64
  in lines of 64 characters, the CRC-24 of the payload in base64 after an equals sign,
  and the end line.
\<close>

definition encodeStd :: "byte list" where
  "encodeStd = bytes_of ''ABCDEFGHIJKLMNOPQRSTUVWXYZabcdefghijklmnopqrstuvwxyz0123456789+/''"

fun base64_Encode :: "byte list \<Rightarrow> byte list" where
  "base64_Encode (a # b # c # r) =
     (let v = unat a * 65536 + unat b * 256 + unat c
      in [encodeStd ! (v div 262144), encodeStd ! (v div 4096 mod 64),
          encodeStd ! (v div 64 mod 64), encodeStd ! (v mod 64)]) @ base64_Encode r"
| "base64_Encode [a, b] =
     (let v = unat a * 65536 + unat b * 256
      in [encodeStd ! (v div 262144), encodeStd ! (v div 4096 mod 64),
          encodeStd ! (v div 64 mod 64), 0x3d])"
| "base64_Encode [a] =
     (let v = unat a * 65536
      in [encodeStd ! (v div 262144), encodeStd ! (v div 4096 mod 64), 0x3d, 0x3d])"
| "base64_Encode [] = []"

function lineBreaker :: "byte list \<Rightarrow> byte list" where
  "lineBreaker s = (if length s \<le> 64 then s else take 64 s @ [10] @ lineBreaker (drop 64 s))"
  by pat_completeness auto
termination
  by (relation "measure length") auto

declare lineBreaker.simps [simp del]

fun crc24_bit :: "nat \<Rightarrow> u32 \<Rightarrow> u32" where
  "crc24_bit 0 c = c"
| "crc24_bit (Suc n) c =
     crc24_bit n (if bit c 23 then push_bit 1 c XOR 0x1864cfb else push_bit 1 c)"

definition crc24_byte :: "u32 \<Rightarrow> byte \<Rightarrow> u32" where
  "crc24_byte c b = crc24_bit 8 (c XOR push_bit 16 (ucast b))"

definition crc24 :: "byte list \<Rightarrow> u32" where
  "crc24 d = foldl crc24_byte 0xb704ce d"

definition header_line :: "byte list \<times> byte list \<Rightarrow> byte list" where
  "header_line h = fst h @ bytes_of '': '' @ snd h @ [10]"

text \<open>What is written in front of a body: \<^verbatim>\<open>Encode\<close> itself.\<close>

definition armor_text :: "byte list \<Rightarrow> (byte list \<times> byte list) list \<Rightarrow> byte list \<Rightarrow> byte list" where
  "armor_text typ hdrs body =
     armorStart @ typ @ armorEndOfLine @ [10] @ concat (map header_line hdrs) @ [10] @ body"

definition armor_body :: "byte list \<Rightarrow> byte list \<Rightarrow> byte list" where
  "armor_body typ x =
     (let crc = crc24 x
      in lineBreaker (base64_Encode x) @ [10, 0x3d]
           @ base64_Encode [ucast (drop_bit 16 crc), ucast (drop_bit 8 crc), ucast crc]
           @ [10] @ bytes_of ''-----END '' @ typ @ armorEndOfLine)"

definition armor_Encode :: "byte list \<Rightarrow> (byte list \<times> byte list) list \<Rightarrow> byte list \<Rightarrow> byte list" where
  "armor_Encode typ hdrs x = armor_text typ hdrs (armor_body typ x)"

section \<open>upload.go\<close>

subsection \<open>What a run does: log lines, requests, calls\<close>

text \<open>
  A run is observed through the lines it logs, the HTTP requests it sends and its
  calls of \<^verbatim>\<open>hashGenerator\<close> and \<^verbatim>\<open>json.Marshal\<close>. It ends by returning, by
  \<^verbatim>\<open>os.Exit\<close> or by a panic of the Go runtime (exit status 2).

  Modelled from the spec: the logger \<^verbatim>\<open>log.Logger\<close> of \<^verbatim>\<open>pkg/log\<close>, which is not among
  the sources. \<^verbatim>\<open>Info\<close> and \<^verbatim>\<open>Error\<close> write a line and return; \<^verbatim>\<open>Fatal\<close> writes a line and
  terminates the process with a non-zero status (status 1). A line is modelled by its
  level and the constant text the call gives it; the text of an error that follows the
  constant text is left out. A line that consists of an error alone (\<^verbatim>\<open>log.Error(err)\<close>,
  \<^verbatim>\<open>log.Fatal(err)\<close>) is modelled by its level and the error.
\<close>

datatype level = Info | Error | Fatal

record request =
  req_Method :: string
  req_URL :: string
  req_Body :: "byte list"
  req_Timeout :: nat

text \<open>A response: the status code and what \<^verbatim>\<open>ioutil.ReadAll\<close> gets from its body, the
  bytes read and the error that ended the reading, if any.\<close>

record response =
  StatusCode :: nat
  resp_Body :: "byte list"
  resp_ReadErr :: "go_error option"

text \<open>The two structs that are serialized, with their fields in the order of their
  declaration: \<^verbatim>\<open>SHA\<close>, \<^verbatim>\<open>URL\<close>, \<^verbatim>\<open>Signature\<close>, \<^verbatim>\<open>PublicKey\<close>.\<close>

datatype LogEntry =
    RekorEntry string string "byte list" "byte list"
  | RekorArmorEntry string string string string

datatype event =
    Log level string
  | LogErr level go_error
  | HttpGet string
  | HashGenerator string "byte list"
  | Marshal LogEntry
  | HttpDo request

datatype outcome = Exit nat | Panic

text \<open>A piece of the run: the events it produces and either how the process ended in
  it or the value it hands on.\<close>

type_synonym 'a step = "event list \<times> (outcome + 'a)"

definition and_then :: "'a step \<Rightarrow> ('a \<Rightarrow> 'b step) \<Rightarrow> 'b step" where
  "and_then m f =
     (case m of
        (es, Inl out) \<Rightarrow> (es, Inl out)
      | (es, Inr x) \<Rightarrow> (case f x of (es', r) \<Rightarrow> (es @ es', r)))"

definition log_Fatal :: "string \<Rightarrow> 'a step" where
  "log_Fatal msg = ([Log Fatal msg], Inl (Exit 1))"

definition log_Fatal_err :: "go_error \<Rightarrow> 'a step" where
  "log_Fatal_err err = ([LogErr Fatal err], Inl (Exit 1))"

definition exit_status :: "outcome + 'a \<Rightarrow> nat" where
  "exit_status r = (case r of Inl (Exit n) \<Rightarrow> n | Inl Panic \<Rightarrow> 2 | Inr x \<Rightarrow> 0)"

fun is_Marshal :: "event \<Rightarrow> bool" where
  "is_Marshal (Marshal e) = True"
| "is_Marshal _ = False"

fun is_HttpDo :: "event \<Rightarrow> bool" where
  "is_HttpDo (HttpDo rq) = True"
| "is_HttpDo _ = False"


subsection \<open>isArmorProtected\<close>

text \<open>The result is the lines logged, the \<^verbatim>\<open>bool\<close> returned and the file as the call
  leaves it.\<close>

definition isArmorProtected :: "os_File option \<Rightarrow> event list \<times> bool \<times> os_File option" where
  "isArmorProtected f =
     (case armor_Decode f of
        (decodeErr, f1) \<Rightarrow>
          (case file_Seek0 f1 of
             (err, f2) \<Rightarrow>
               (if err \<noteq> None then [Log Error ''Error processing file:''] else [],
                decodeErr = None, f2)))"

subsection \<open>hashGenerator\<close>

text \<open>
  \<^verbatim>\<open>io.Copy(hasher, gz)\<close> writes to the hasher what the reader delivers and returns the
  error that ended the reading, unless it is \<^verbatim>\<open>EOF\<close>. When \<^verbatim>\<open>gzip.NewReader\<close> fails, the
  error is logged and \<^verbatim>\<open>gz\<close> is \<^verbatim>\<open>nil\<close>; \<^verbatim>\<open>io.Copy\<close> then calls \<^verbatim>\<open>Read\<close> on the nil
  reader, which dereferences it: the run panics. Writing to the hasher never fails.
\<close>

definition io_Copy :: "byte list \<Rightarrow> byte list \<Rightarrow> byte list \<times> go_error option" where
  "io_Copy hasher gz =
     (case gzip_Read gz of (p, e) \<Rightarrow> (hasher @ p, if e = EOF then None else Some e))"

definition hashGenerator :: "string \<Rightarrow> byte list \<Rightarrow> string step" where
  "hashGenerator artifact fileObject =
     (let hasher = []
      in if strings_HasSuffix artifact ''.gz'' then
           (case gzip_NewReader fileObject of
              Inl err \<Rightarrow>
                ([Log Info ''gzipped content detected'', Log Error ''Error:''], Inl Panic)
            | Inr gz \<Rightarrow>
                (case io_Copy hasher gz of
                   (hasher', err) \<Rightarrow>
                     ([Log Info ''gzipped content detected'']
                        @ (if err \<noteq> None then [Log Error ''Error:''] else []),
                      Inr (hex_EncodeToString (sha256_Sum hasher')))))
         else ([], Inr (hex_EncodeToString (sha256_Sum (hasher @ fileObject)))))"

subsection \<open>The world of a run\<close>

text \<open>
  Everything \<^verbatim>\<open>Run\<close> gets from outside. \<open>'kr\<close> is the type of key rings
  (\<^verbatim>\<open>openpgp.EntityList\<close>).

  \<^item> \<open>viper_GetString\<close>: the configuration.
  \<^item> \<open>pkg_FormatSignature\<close>, \<open>pkg_FormatPubKey\<close>: the two functions of \<^verbatim>\<open>pkg\<close>, which
    is not among the sources; they are taken as given.
  \<^item> \<open>http_Get\<close>: \<^verbatim>\<open>http.DefaultClient.Get\<close>, the response (\<open>None\<close> is \<^verbatim>\<open>nil\<close>) and the
    error.
  \<^item> \<open>fs\<close>: the file system, for each path the error of opening it or its bytes and
    whether it can seek. \<^verbatim>\<open>os.Open\<close> gives the file at position 0.
  \<^item> The four functions of \<^verbatim>\<open>openpgp\<close> read from an \<^verbatim>\<open>io.Reader\<close>. They get what is
    left to read of the file (\<open>None\<close> for a nil file) and say, with their result, how
    many bytes they have read.
  \<^item> \<open>url_err\<close>: the error of \<^verbatim>\<open>http.NewRequestWithContext\<close> for a method and a URL.
  \<^item> \<open>client_Do\<close>, \<open>service_seconds\<close>: what the log service answers to a request and
    the seconds it takes from the sending of the request to the last byte of the
    answer.
  \<^item> \<open>json_Marshal\<close>, \<open>json_Unmarshal\<close>: encoding the entry and decoding the status of the
    response.
\<close>

record 'kr world =
  viper_GetString :: "string \<Rightarrow> string"
  pkg_FormatSignature :: "string \<Rightarrow> go_error + string"
  pkg_FormatPubKey :: "string \<Rightarrow> go_error + string"
  http_Get :: "string \<Rightarrow> response option \<times> go_error option"
  fs :: "string \<Rightarrow> go_error + byte list \<times> bool"
  openpgp_ReadArmoredKeyRing :: "byte list option \<Rightarrow> ('kr \<times> go_error option) \<times> nat"
  openpgp_ReadKeyRing :: "byte list option \<Rightarrow> ('kr \<times> go_error option) \<times> nat"
  openpgp_CheckArmoredDetachedSignature ::
    "'kr \<Rightarrow> byte list \<Rightarrow> byte list option \<Rightarrow> go_error option \<times> nat"
  openpgp_CheckDetachedSignature ::
    "'kr \<Rightarrow> byte list \<Rightarrow> byte list option \<Rightarrow> go_error option \<times> nat"
  json_Marshal :: "LogEntry \<Rightarrow> go_error + byte list"
  url_err :: "string \<Rightarrow> string \<Rightarrow> go_error option"
  client_Do :: "request \<Rightarrow> go_error + response"
  service_seconds :: "request \<Rightarrow> nat"
  json_Unmarshal :: "byte list \<Rightarrow> go_error + string"

definition os_Open :: "'kr world \<Rightarrow> string \<Rightarrow> go_error + os_File" where
  "os_Open w name =
     (case fs w name of
        Inl err \<Rightarrow> Inl err
      | Inr (bs, sk) \<Rightarrow> Inr \<lparr>content = bs, pos = 0, seekable = sk\<rparr>)"

definition ioutil_ReadFile :: "'kr world \<Rightarrow> string \<Rightarrow> go_error + byte list" where
  "ioutil_ReadFile w name =
     (case fs w name of Inl err \<Rightarrow> Inl err | Inr (bs, sk) \<Rightarrow> Inr bs)"

definition reader :: "os_File option \<Rightarrow> byte list option" where
  "reader f = map_option (\<lambda>fl. drop (pos fl) (content fl)) f"

definition advance :: "nat \<Rightarrow> os_File option \<Rightarrow> os_File option" where
  "advance n f = map_option (\<lambda>fl. fl\<lparr>pos := min (length (content fl)) (pos fl + n)\<rparr>) f"

subsection \<open>Run\<close>

text \<open>The local variables of \<^verbatim>\<open>Run\<close> that live across its parts.\<close>

record 'kr locals =
  sig :: string
  pub_key :: string
  readBody :: "byte list"
  generatedSha :: string
  keyRing :: 'kr
  pubkeyRingReader :: "os_File option"
  sigkeyRingReader :: "os_File option"

text \<open>Lines 113 to 121: the two format checks.\<close>

definition format_inputs :: "'kr world \<Rightarrow> (string \<times> string) step" where
  "format_inputs w =
     (case pkg_FormatSignature w (viper_GetString w ''signature'') of
        Inl err \<Rightarrow> log_Fatal ''Signature validation failed: ''
      | Inr sg \<Rightarrow>
          (case pkg_FormatPubKey w (viper_GetString w ''public-key'') of
             Inl err \<Rightarrow> log_Fatal ''Public key validation failed: ''
           | Inr pk \<Rightarrow> ([], Inr (sg, pk))))"

text \<open>Lines 125 to 139: the download. An error of \<^verbatim>\<open>Get\<close> is logged and the run goes
  on; \<^verbatim>\<open>defer resp.Body.Close()\<close> then evaluates \<^verbatim>\<open>resp.Body\<close>, which panics when
  \<^verbatim>\<open>resp\<close> is nil. The status code is not looked at.\<close>

definition download :: "'kr world \<Rightarrow> byte list step" where
  "download w =
     (let artifactURL = viper_GetString w ''artifact-url''
      in case http_Get w artifactURL of
           (resp, err) \<Rightarrow>
             and_then
               ([Log Info ''Download artifact..'', HttpGet artifactURL]
                  @ (case err of None \<Rightarrow> [] | Some e \<Rightarrow> [LogErr Error e]),
                case resp of None \<Rightarrow> Inl Panic | Some r \<Rightarrow> Inr r)
               (\<lambda>r. ([Log Info ''Contents fetched..'']
                       @ (if resp_ReadErr r \<noteq> None
                          then [Log Error ''Error reading response body: ''] else []),
                     Inr (resp_Body r))))"

text \<open>Line 142.\<close>

definition hash_artifact :: "'kr world \<Rightarrow> byte list \<Rightarrow> string step" where
  "hash_artifact w body =
     (let artifactURL = viper_GetString w ''artifact-url''
      in and_then ([HashGenerator artifactURL body], Inr ())
           (\<lambda>u. hashGenerator artifactURL body))"

text \<open>Lines 145 to 165: the two files are opened (an error is logged and leaves the
  handle nil) and the key ring is read through the path that fits its encoding.\<close>

definition open_logged :: "'kr world \<Rightarrow> string \<Rightarrow> string \<Rightarrow> event list \<times> os_File option" where
  "open_logged w name msg =
     (case os_Open w name of
        Inl err \<Rightarrow> ([Log Error msg], None)
      | Inr f \<Rightarrow> ([], Some f))"

definition load_keyring :: "'kr world \<Rightarrow> ('kr \<times> os_File option \<times> os_File option) step" where
  "load_keyring w =
     (case open_logged w (viper_GetString w ''public-key'') ''Error opening publickey: '' of
        (es1, pubf) \<Rightarrow>
     (case open_logged w (viper_GetString w ''signature'') ''Error opening signature: '' of
        (es2, sigf) \<Rightarrow>
     (case isArmorProtected pubf of
        (es3, armored, pubf1) \<Rightarrow>
     (case (if armored then openpgp_ReadArmoredKeyRing w (reader pubf1)
            else openpgp_ReadKeyRing w (reader pubf1)) of
        ((kr, err), n) \<Rightarrow>
          (es1 @ es2 @ es3
             @ (if err \<noteq> None
                then [Log Error (if armored then ''Error reading Armored Keyring: ''
                                 else ''Error reading Keyring: '')]
                else []),
           Inr (kr, advance n pubf1, sigf))))))"

text \<open>Lines 103 to 165.\<close>

definition prepare :: "'kr world \<Rightarrow> 'kr locals step" where
  "prepare w =
     and_then (format_inputs w) (\<lambda>(sg, pk).
     and_then (download w) (\<lambda>body.
     and_then (hash_artifact w body) (\<lambda>sha.
     and_then (load_keyring w) (\<lambda>(kr, pubf, sigf).
       ([], Inr \<lparr>sig = sg, pub_key = pk, readBody = body, generatedSha = sha,
                 keyRing = kr, pubkeyRingReader = pubf, sigkeyRingReader = sigf\<rparr>)))))"

text \<open>Lines 167 to 179: the probe of the signature file and the check it selects. The
  result is the lines logged by the probe, the encoding found, the error of the check
  and the signature file after the check has read from it.\<close>

definition check_signature ::
  "'kr world \<Rightarrow> 'kr locals \<Rightarrow> event list \<times> bool \<times> go_error option \<times> os_File option" where
  "check_signature w l =
     (case isArmorProtected (sigkeyRingReader l) of
        (es, armored, sigf1) \<Rightarrow>
          (case (if armored
                 then openpgp_CheckArmoredDetachedSignature w (keyRing l) (readBody l) (reader sigf1)
                 else openpgp_CheckDetachedSignature w (keyRing l) (readBody l) (reader sigf1)) of
             (err, n) \<Rightarrow> (es, armored, err, advance n sigf1)))"

text \<open>Lines 167 to 184.\<close>

definition verify :: "'kr world \<Rightarrow> 'kr locals \<Rightarrow> 'kr locals step" where
  "verify w l =
     (case check_signature w l of
        (es, armored, err, sigf) \<Rightarrow>
          if err \<noteq> None then
            (es @ [Log Error (if armored then ''Error reading Armor Detatched Signature: ''
                              else ''Error reading Detatched Signature: ''),
                   Log Error ''Signature Verification failed: ''],
             Inl (Exit 1))
          else (es @ [Log Info ''Signature validation passed''],
                Inr (l\<lparr>sigkeyRingReader := sigf\<rparr>)))"

text \<open>Line 191: the two files are probed again, the public key only when the probe of
  the signature says no.\<close>

definition probe_again :: "'kr locals \<Rightarrow> event list \<times> bool" where
  "probe_again l =
     (case isArmorProtected (sigkeyRingReader l) of
        (es1, sigArmored, sigf) \<Rightarrow>
          if sigArmored then (es1, True)
          else (case isArmorProtected (pubkeyRingReader l) of
                  (es2, pubArmored, pubf) \<Rightarrow> (es1 @ es2, pubArmored)))"

definition marshal ::
  "'kr world \<Rightarrow> LogEntry \<Rightarrow> (go_error \<Rightarrow> byte list step) \<Rightarrow> byte list step" where
  "marshal w entry fatal =
     and_then ([Marshal entry], Inr ())
       (\<lambda>u. case json_Marshal w entry of
               Inl err \<Rightarrow> fatal err
             | Inr bs \<Rightarrow> ([], Inr bs))"

text \<open>Lines 190 to 221.\<close>

definition build :: "'kr world \<Rightarrow> 'kr locals \<Rightarrow> byte list step" where
  "build w l =
     (let artifactURL = viper_GetString w ''artifact-url''
      in case probe_again l of
           (es, armored) \<Rightarrow>
             and_then (es, Inr ())
               (\<lambda>u. if armored then
                       marshal w (RekorArmorEntry (generatedSha l) artifactURL (sig l) (pub_key l))
                         log_Fatal_err
                     else
                       (case ioutil_ReadFile w (viper_GetString w ''public-key'') of
                          Inl err \<Rightarrow> log_Fatal ''Error Loading: ''
                        | Inr pubKey \<Rightarrow>
                            (case ioutil_ReadFile w (viper_GetString w ''signature'') of
                               Inl err \<Rightarrow> log_Fatal ''Error Loading: ''
                             | Inr sigKey \<Rightarrow>
                                 marshal w (RekorEntry (generatedSha l) artifactURL sigKey pubKey)
                                   (\<lambda>err. log_Fatal ''JSON Failed to Marshall: '')))))"

text \<open>
  Lines 224 to 254: one request, under a context with a timeout of 180 seconds. The
  context covers \<^verbatim>\<open>client.Do\<close> and the reading of the body: when the deadline passes
  before the answer is complete, the one that is waiting returns the error of the
  context, \<^verbatim>\<open>context.DeadlineExceeded\<close> (\<^verbatim>\<open>Do\<close> wraps it in a \<^verbatim>\<open>url.Error\<close>). Both calls
  are followed by the same \<^verbatim>\<open>log.Fatal(err)\<close>, so the model lets \<^verbatim>\<open>Do\<close> return it. Every
  error ends the run through \<^verbatim>\<open>log.Fatal\<close>. The status code of the response is not
  looked at.
\<close>

definition upload_request :: "'kr world \<Rightarrow> byte list \<Rightarrow> request" where
  "upload_request w marshalledRekorEntry =
     \<lparr>req_Method = ''POST'',
      req_URL = viper_GetString w ''rekor_server'' @ ''/api/v1/add'',
      req_Body = marshalledRekorEntry,
      req_Timeout = 180\<rparr>"

definition http_Client_Do :: "'kr world \<Rightarrow> request \<Rightarrow> go_error + response" where
  "http_Client_Do w rq =
     (if req_Timeout rq < service_seconds w rq then Inl DeadlineExceeded else client_Do w rq)"

definition upload :: "'kr world \<Rightarrow> byte list \<Rightarrow> unit step" where
  "upload w marshalledRekorEntry =
     (let url = viper_GetString w ''rekor_server'' @ ''/api/v1/add'';
          rq = upload_request w marshalledRekorEntry
      in and_then ([Log Info ''Uploading manifest to Rekor.''], Inr ())
           (\<lambda>u. case url_err w ''POST'' url of
                   Some err \<Rightarrow> log_Fatal_err err
                 | None \<Rightarrow>
                     and_then ([HttpDo rq], Inr ())
                       (\<lambda>u. case http_Client_Do w rq of
                               Inl err \<Rightarrow> log_Fatal_err err
                             | Inr resp \<Rightarrow>
                                 (case resp_ReadErr resp of
                                    Some err \<Rightarrow> log_Fatal_err err
                                  | None \<Rightarrow>
                                      (case json_Unmarshal w (resp_Body resp) of
                                         Inl err \<Rightarrow> log_Fatal_err err
                                       | Inr status \<Rightarrow> ([Log Info ''Status: ''], Inr ()))))))"

text \<open>Lines 103 to 221: everything before the upload.\<close>

definition make_entry :: "'kr world \<Rightarrow> byte list step" where
  "make_entry w = and_then (prepare w) (\<lambda>l. and_then (verify w l) (build w))"

definition Run :: "'kr world \<Rightarrow> unit step" where
  "Run w = and_then (make_entry w) (upload w)"

section \<open>Properties\<close>

subsection \<open>The digest\<close>

lemma sha_out_length: "length (sha_out st) = 32"
  by (cases st rule: sha_out.cases) (simp add: be_bytes32_def)

lemma sha256_Sum_length: "length (sha256_Sum m) = 32"
  by (simp add: sha256_Sum_def sha_out_length)

lemma hex_length: "length (hex_EncodeToString src) = 2 * length src"
  by (induction src) (simp_all add: hex_EncodeToString_def)

lemma hi_nibble: "unat (drop_bit 4 (v :: byte)) < 16"
proof -
  have "unat v < 256" using unsigned_less [of v, where 'a = nat] by simp
  moreover have "unat (drop_bit 4 v) = unat v div 16"
    by (simp add: drop_bit_eq_div unat_div)
  ultimately show ?thesis by simp
qed

lemma lo_nibble: "unat ((v :: byte) AND 0x0f) < 16"
proof -
  have "unat (v AND 15) \<le> unat (15 :: byte)"
    by (rule word_and_le1 [THEN word_le_nat_alt [THEN iffD1]])
  then show ?thesis by simp
qed

lemma hextable_nth: "n < 16 \<Longrightarrow> hextable ! n \<in> set hextable"
  by (rule nth_mem) (simp add: hextable_def)

lemma hex_chars: "set (hex_EncodeToString src) \<subseteq> set hextable"
  by (induction src) (auto simp: hex_EncodeToString_def intro!: hextable_nth hi_nibble lo_nibble)

lemma hashGenerator_digest:
  "hashGenerator artifact fileObject = (es, Inr d) \<Longrightarrow> \<exists>m. d = hex_EncodeToString (sha256_Sum m)"
  by (auto simp: hashGenerator_def Let_def split: if_splits sum.splits prod.splits)

subsection \<open>Evaluation by rewriting\<close>

text \<open>Recursion over a numeral is unrolled one step at a time, and the rules below
  evaluate the models on concrete bytes.\<close>

lemma schedule_numeral:
  "schedule (numeral k) w =
     (let i = length w;
          v1 = w ! (i - 2);
          t1 = rotr32 17 v1 XOR rotr32 19 v1 XOR drop_bit 10 v1;
          v2 = w ! (i - 15);
          t2 = rotr32 7 v2 XOR rotr32 18 v2 XOR drop_bit 3 v2
      in schedule (pred_numeral k) (w @ [t1 + w ! (i - 7) + t2 + w ! (i - 16)]))"
  by (simp add: numeral_eq_Suc)

lemma crc32_bit_numeral:
  "crc32_bit (numeral k) c =
     crc32_bit (pred_numeral k) (if bit c 0 then drop_bit 1 c XOR 0xedb88320 else drop_bit 1 c)"
  by (simp add: numeral_eq_Suc)

lemma replicate_unroll: "replicate (numeral k) x = x # replicate (pred_numeral k) x"
  by (simp add: numeral_eq_Suc)

lemmas sha256_eval = sha256_Sum_def sha256_padding_def be_bytes64_def sha_block.simps
  sha_chunk_def sha256_K_def sha256_init_def be_bytes32_def rotr32_def schedule_numeral
  replicate_unroll hex_EncodeToString_def hextable_def bytes_of_def Let_def

lemmas gzip_eval = gunzip_def gzip_NewReader_def gzip_readHeader_def hdr_extra_def
  hdr_string_def hdr_crc_def crc32_ChecksumIEEE_def crc32_Update_def crc32_byte_def
  crc32_bit_numeral gzip_Read.simps inflate_def inflate_blocks.simps dataBlock_def align_def
  bits_of_def bits_of_byte_def le16_def le32_def read_bits_def bytes_of_def Let_def

definition hello :: "byte list" where
  "hello = bytes_of ''hello'' @ [10]"


text \<open>A gzip header with nothing after it, and \<open>hello_gz\<close> cut after three bytes of
  data.\<close>

definition gz_header_only :: "byte list" where
  "gz_header_only = [31, 139, 8, 0, 0, 0, 0, 0, 0, 255]"

definition hello_gz_cut :: "byte list" where
  "hello_gz_cut = [31, 139, 8, 0, 0, 0, 0, 0, 0, 255, 1, 6, 0, 249, 255, 104, 101, 108]"

lemma sha256_hello:
  "hex_EncodeToString (sha256_Sum hello) =
     ''5891b5b522d5df086d0ff0b110fbd9d21bb4fc7163af34d08286a2e846f6be03''"
  by (simp add: hello_def sha256_eval cong: let_weak_cong)

lemma sha256_empty:
  "hex_EncodeToString (sha256_Sum []) =
     ''e3b0c44298fc1c149afbf4c8996fb92427ae41e4649b934ca495991b7852b855''"
  by (simp add: sha256_eval cong: let_weak_cong)


lemma gunzip_header_only: "gunzip gz_header_only = Inr ([], ErrUnexpectedEOF)"
  by (simp add: gz_header_only_def gzip_eval cong: let_weak_cong)

lemma gunzip_cut: "gunzip hello_gz_cut = Inr (bytes_of ''hel'', ErrUnexpectedEOF)"
  by (simp add: hello_gz_cut_def gzip_eval cong: let_weak_cong)

subsection \<open>The gzip reader reads what the writer writes\<close>
























subsection \<open>hashGenerator\<close>

lemma hashGenerator_plain:
  "\<not> strings_HasSuffix artifact ''.gz'' \<Longrightarrow>
     hashGenerator artifact b = ([], Inr (hex_EncodeToString (sha256_Sum b)))"
  by (simp add: hashGenerator_def)

lemma hashGenerator_gz:
  "strings_HasSuffix artifact ''.gz'' \<Longrightarrow> gunzip z = Inr (written, err) \<Longrightarrow>
     hashGenerator artifact z =
       (Log Info ''gzipped content detected'' # (if err = EOF then [] else [Log Error ''Error:'']),
        Inr (hex_EncodeToString (sha256_Sum written)))"
  by (auto simp: hashGenerator_def gunzip_def io_Copy_def split: sum.splits)

lemma has_suffix_a_gz: "strings_HasSuffix ''a.gz'' ''.gz''" "\<not> strings_HasSuffix ''a'' ''.gz''"
  by (simp_all add: strings_HasSuffix_def)




text \<open>
  C4, as the code has it. When the name ends in \<^verbatim>\<open>.gz\<close>, the header of the bytes is a
  gzip header and the decompression fails later, \<^verbatim>\<open>hashGenerator\<close> logs the error and
  returns the digest of the bytes that were decompressed before the failure.
\<close>

theorem failed_decompression_is_logged_and_hashed:
  assumes "strings_HasSuffix artifact ''.gz''" and "gunzip b = Inr (written, err)"
    and "err \<noteq> EOF"
  shows "hashGenerator artifact b =
           ([Log Info ''gzipped content detected'', Log Error ''Error:''],
            Inr (hex_EncodeToString (sha256_Sum written)))"
  using assms by (simp add: hashGenerator_gz)

theorem failed_decompression_is_logged_and_hashed_witness:
  "strings_HasSuffix ''a.gz'' ''.gz''
   \<and> gunzip hello_gz_cut = Inr (bytes_of ''hel'', ErrUnexpectedEOF)
   \<and> ErrUnexpectedEOF \<noteq> EOF
   \<and> hashGenerator ''a.gz'' hello_gz_cut =
         ([Log Info ''gzipped content detected'', Log Error ''Error:''],
          Inr (hex_EncodeToString (sha256_Sum (bytes_of ''hel''))))"
  using failed_decompression_is_logged_and_hashed [OF has_suffix_a_gz(1) gunzip_cut]
    has_suffix_a_gz(1) gunzip_cut
  by simp

text \<open>
  C4 fails as stated: for a gzip header with nothing after it, under a name that ends
  in \<^verbatim>\<open>.gz\<close>, the reader fails with \<^verbatim>\<open>ErrUnexpectedEOF\<close> before it delivers a byte, and
  \<^verbatim>\<open>hashGenerator\<close> returns the digest of the empty byte sequence.
\<close>

theorem digest_over_garbage_counterexample:
  "strings_HasSuffix ''a.gz'' ''.gz''
   \<and> gunzip gz_header_only = Inr ([], ErrUnexpectedEOF)
   \<and> hashGenerator ''a.gz'' gz_header_only =
         ([Log Info ''gzipped content detected'', Log Error ''Error:''],
          Inr ''e3b0c44298fc1c149afbf4c8996fb92427ae41e4649b934ca495991b7852b855'')"
  using hashGenerator_gz [OF has_suffix_a_gz(1) gunzip_header_only]
  by (simp add: has_suffix_a_gz gunzip_header_only sha256_empty)

text \<open>
  C6, with the digest of the spec completed. Under a name that does not end in \<^verbatim>\<open>.gz\<close>
  the digest is the lowercase hexadecimal encoding of the SHA-256 of the bytes; for
  \<^verbatim>\<open>hello\<close> and a newline it is \<^verbatim>\<open>5891b5b5...f6be03\<close>, 64 characters.
\<close>

theorem plain_name_gives_sha256_hex:
  assumes "\<not> strings_HasSuffix artifact ''.gz''"
  shows "hashGenerator artifact b = ([], Inr (hex_EncodeToString (sha256_Sum b)))
         \<and> hashGenerator artifact hello =
             ([], Inr ''5891b5b522d5df086d0ff0b110fbd9d21bb4fc7163af34d08286a2e846f6be03'')"
  using assms by (simp add: hashGenerator_plain sha256_hello)

theorem plain_name_gives_sha256_hex_witness:
  "\<not> strings_HasSuffix ''a'' ''.gz''
   \<and> hashGenerator ''a'' [] = ([], Inr (hex_EncodeToString (sha256_Sum [])))
   \<and> hashGenerator ''a'' hello =
       ([], Inr ''5891b5b522d5df086d0ff0b110fbd9d21bb4fc7163af34d08286a2e846f6be03'')"
  using plain_name_gives_sha256_hex [OF has_suffix_a_gz(2), of "[]"] has_suffix_a_gz(2)
  by simp

text \<open>
  C6 fails as stated: the digest the spec gives for \<^verbatim>\<open>hello\<close> and a newline has 63
  characters, the last one of the digest is missing.
\<close>

theorem spec_digest_counterexample:
  "snd (hashGenerator ''a'' hello)
     \<noteq> Inr ''5891b5b522d5df086d0ff0b110fbd9d21bb4fc7163af34d08286a2e846f6be0''"
  by (simp add: hashGenerator_plain has_suffix_a_gz sha256_hello)

text \<open>
  C10. A digest that \<^verbatim>\<open>hashGenerator\<close> returns has 64 characters, each one a decimal
  digit or a letter from \<^verbatim>\<open>a\<close> to \<^verbatim>\<open>f\<close>.
\<close>

theorem digest_is_64_lowercase_hex:
  "hashGenerator artifact fileObject = (es, Inr d) \<Longrightarrow>
     length d = 64 \<and> set d \<subseteq> set ''0123456789abcdef''"
proof -
  assume "hashGenerator artifact fileObject = (es, Inr d)"
  then obtain m where d: "d = hex_EncodeToString (sha256_Sum m)"
    by (auto dest: hashGenerator_digest)
  have "length d = 64" unfolding d by (simp add: hex_length sha256_Sum_length)
  moreover have "set d \<subseteq> set ''0123456789abcdef''"
    unfolding d using hex_chars [of "sha256_Sum m"] by (simp only: hextable_def)
  ultimately show ?thesis by simp
qed

theorem digest_is_64_lowercase_hex_witness:
  "hashGenerator ''a'' hello =
     ([], Inr ''5891b5b522d5df086d0ff0b110fbd9d21bb4fc7163af34d08286a2e846f6be03'')
   \<and> length ''5891b5b522d5df086d0ff0b110fbd9d21bb4fc7163af34d08286a2e846f6be03'' = 64
   \<and> set ''5891b5b522d5df086d0ff0b110fbd9d21bb4fc7163af34d08286a2e846f6be03''
       \<subseteq> set ''0123456789abcdef''"
proof -
  have h: "hashGenerator ''a'' hello =
     ([], Inr ''5891b5b522d5df086d0ff0b110fbd9d21bb4fc7163af34d08286a2e846f6be03'')"
    by (simp add: hashGenerator_plain has_suffix_a_gz sha256_hello)
  from digest_is_64_lowercase_hex [OF h] h show ?thesis by blast
qed

subsection \<open>The probe reads and seeks, and nothing else\<close>

text \<open>Reading leaves the bytes of a file and whether it can seek as they are, and
  moves the position forward only.\<close>

definition same_file :: "os_File option \<Rightarrow> os_File option \<Rightarrow> bool" where
  "same_file f f' =
     (case (f, f') of
        (None, None) \<Rightarrow> True
      | (Some a, Some b) \<Rightarrow> content b = content a \<and> seekable b = seekable a \<and> pos a \<le> pos b
      | _ \<Rightarrow> False)"

lemma same_file_refl: "same_file f f"
  by (simp add: same_file_def split: option.splits)

lemma same_file_trans: "same_file f g \<Longrightarrow> same_file g h \<Longrightarrow> same_file f h"
  by (auto simp: same_file_def split: option.splits)

lemma file_Read_same: "file_Read f n = (p, e, f') \<Longrightarrow> same_file f f'"
  by (auto simp: file_Read_def same_file_def Let_def split: option.splits if_splits)

lemma bufio_fill_same: "same_file (rd b) (rd (bufio_fill b))"
  by (cases "file_Read (rd b) (bufSize - length (buf b))")
     (auto simp: bufio_fill_def dest: file_Read_same)

lemma bufio_ReadSlice_same: "bufio_ReadSlice d b = (line, e, b') \<Longrightarrow> same_file (rd b) (rd b')"
proof (induction d b rule: bufio_ReadSlice.induct)
  case (1 delim b)
  show ?case
  proof (cases "delim \<in> set (buf b) \<or> rerr b \<noteq> None \<or> length (buf b) \<ge> bufSize")
    case True
    with "1.prems" show ?thesis
      by (auto simp: bufio_ReadSlice.simps [of delim b] Let_def same_file_refl split: if_splits)
  next
    case False
    with "1.prems" have "bufio_ReadSlice delim (bufio_fill b) = (line, e, b')"
      by (simp add: bufio_ReadSlice.simps [of delim b])
    with "1.IH" False have "same_file (rd (bufio_fill b)) (rd b')" by simp
    with bufio_fill_same [of b] show ?thesis by (rule same_file_trans)
  qed
qed

lemma bufio_ReadLine_same:
  "bufio_ReadLine b = (line, pfx, e, b') \<Longrightarrow> same_file (rd b) (rd b')"
  by (cases "bufio_ReadSlice 10 b")
     (auto simp: bufio_ReadLine_def Let_def split: if_splits dest: bufio_ReadSlice_same)

lemma armor_same:
  "same_file (rd r) (rd (snd (armor_garbage ign r)))"
  "same_file (rd r) (rd (snd (armor_headers cont r)))"
proof (induction ign r and cont r rule: armor_garbage_armor_headers.induct)
  case (1 ignoreNext r)
  obtain line pfx e r' where rl: "bufio_ReadLine r = (line, pfx, e, r')"
    by (cases "bufio_ReadLine r") auto
  note s = bufio_ReadLine_same [OF rl]
  show ?case
  proof (cases e)
    case (Some err)
    with rl s show ?thesis by (simp add: armor_garbage.simps [of ignoreNext r])
  next
    case None
    from "1.IH"(1) [OF rl [symmetric, unfolded None] refl refl refl]
      "1.IH"(2) [OF rl [symmetric, unfolded None] refl refl refl]
      "1.IH"(3) [OF rl [symmetric, unfolded None] refl refl refl]
    show ?thesis
      using rl None s
      by (auto simp: armor_garbage.simps [of ignoreNext r] intro: same_file_trans)
  qed
next
  case (2 nextIsContinuation r)
  obtain line pfx e r' where rl: "bufio_ReadLine r = (line, pfx, e, r')"
    by (cases "bufio_ReadLine r") auto
  note s = bufio_ReadLine_same [OF rl]
  show ?case
  proof (cases e)
    case (Some err)
    with rl s show ?thesis by (simp add: armor_headers.simps [of nextIsContinuation r])
  next
    case None
    from "2.IH"(1) [OF rl [symmetric, unfolded None] refl refl refl]
      "2.IH"(2) [OF rl [symmetric, unfolded None] refl refl refl]
      "2.IH"(3) [OF rl [symmetric, unfolded None] refl refl refl]
    show ?thesis
      using rl None s
      by (auto simp: armor_headers.simps [of nextIsContinuation r] intro: same_file_trans)
  qed
qed

lemma armor_Decode_same: "same_file f (snd (armor_Decode f))"
  using armor_same(1) [of "bufio_NewReaderSize f" False]
  by (cases "armor_garbage False (bufio_NewReaderSize f)")
     (simp add: armor_Decode_def bufio_NewReaderSize_def)

text \<open>The first thing the probe does is to fill the buffer of its reader, with up to
  100 bytes of the file.\<close>

lemma first_fill:
  "rd (bufio_fill (bufio_NewReaderSize (Some fl))) =
     Some (fl\<lparr>pos := pos fl + length (take bufSize (drop (pos fl) (content fl)))\<rparr>)"
  by (auto simp: bufio_fill_def bufio_NewReaderSize_def file_Read_def bufSize_def Let_def)

lemma armor_garbage_first:
  "same_file (rd (bufio_fill (bufio_NewReaderSize f)))
     (rd (snd (armor_garbage ign (bufio_NewReaderSize f))))"
proof -
  let ?b = "bufio_NewReaderSize f"
  obtain line pfx e r' where rl: "bufio_ReadLine ?b = (line, pfx, e, r')"
    by (cases "bufio_ReadLine ?b") auto
  obtain l0 e0 b1 where rs: "bufio_ReadSlice 10 (bufio_fill ?b) = (l0, e0, b1)"
    by (cases "bufio_ReadSlice 10 (bufio_fill ?b)") auto
  have "bufio_ReadSlice 10 ?b = bufio_ReadSlice 10 (bufio_fill ?b)"
    by (subst bufio_ReadSlice.simps) (simp add: bufio_NewReaderSize_def bufSize_def)
  with rs have rs0: "bufio_ReadSlice 10 ?b = (l0, e0, b1)" by simp
  from rl rs0 have "rd r' = rd b1"
    by (auto simp: bufio_ReadLine_def Let_def split: if_splits)
  with bufio_ReadSlice_same [OF rs] have s1: "same_file (rd (bufio_fill ?b)) (rd r')" by simp
  show ?thesis
  proof (cases e)
    case (Some err)
    with rl s1 show ?thesis by (simp add: armor_garbage.simps [of ign ?b])
  next
    case None
    have "rd (snd (armor_garbage ign ?b)) = rd (snd (armor_garbage pfx r'))
          \<or> rd (snd (armor_garbage ign ?b)) = rd (snd (armor_headers False r'))"
      using rl None by (simp add: armor_garbage.simps [of ign ?b])
    with armor_same(1) [of r' pfx] armor_same(2) [of r' False] s1 show ?thesis
      by (auto intro: same_file_trans)
  qed
qed

lemma armor_Decode_reads:
  assumes "pos fl < length (content fl)"
  shows "\<exists>fl1. snd (armor_Decode (Some fl)) = Some fl1 \<and> pos fl < pos fl1"
proof -
  from assms have "take bufSize (drop (pos fl) (content fl)) \<noteq> []"
    by (simp add: bufSize_def)
  then have "0 < length (take bufSize (drop (pos fl) (content fl)))" by (simp del: length_take)
  with armor_garbage_first [of "Some fl" False] first_fill [of fl] show ?thesis
    by (cases "armor_garbage False (bufio_NewReaderSize (Some fl))")
       (auto simp: armor_Decode_def same_file_def split: option.splits)
qed

text \<open>
  C8, as the code has it. The probe leaves the bytes of the file as they are. When
  \<^verbatim>\<open>Seek\<close> succeeds, the file is back at position 0 and nothing is logged. When it
  fails, the error is logged and the position is not reset: the file is left as the
  reads of \<^verbatim>\<open>armor.Decode\<close> left it, not before the position it had and, if there
  was a byte to read, after it.
\<close>

theorem probe_resets_only_a_seekable_file:
  assumes "isArmorProtected (Some fl) = (es, armored, f')"
  shows "\<exists>fl'. f' = Some fl' \<and> content fl' = content fl \<and> seekable fl' = seekable fl
           \<and> (if seekable fl then pos fl' = 0 \<and> es = []
               else f' = snd (armor_Decode (Some fl)) \<and> pos fl \<le> pos fl'
                    \<and> (pos fl < length (content fl) \<longrightarrow> pos fl < pos fl')
                    \<and> es = [Log Error ''Error processing file:''])"
proof -
  obtain e f1 where d: "armor_Decode (Some fl) = (e, f1)"
    by (cases "armor_Decode (Some fl)")
  from armor_Decode_same [of "Some fl"] d obtain fl1 where
    f1: "f1 = Some fl1" "content fl1 = content fl" "seekable fl1 = seekable fl" "pos fl \<le> pos fl1"
    by (auto simp: same_file_def split: option.splits)
  from armor_Decode_reads [of fl] d f1
  have "pos fl < length (content fl) \<longrightarrow> pos fl < pos fl1" by auto
  with assms d f1 show ?thesis
    by (auto simp: isArmorProtected_def file_Seek0_def split: if_splits)
qed

lemmas armor_eval = isArmorProtected_def armor_Decode_def bufio_NewReaderSize_def
  armor_garbage.simps armor_headers.simps bufio_ReadLine_def bufio_ReadSlice.simps
  bufio_fill_def file_Read_def file_Seek0_def bufSize_def bytes_TrimSpace_def
  trim_left.simps trim_right.simps space_runes_def armorStart_def armorEndOfLine_def
  bytes_of_def Let_def suffix_to_prefix sublist_code

text \<open>A small armored signature: the start line, an empty line, two lines of base64,
  the checksum and the end line, 199 bytes.\<close>

definition armored_sig :: "byte list" where
  "armored_sig = bytes_of
     (''-----BEGIN PGP SIGNATURE-----'' @ [CHR 0x0a] @ [CHR 0x0a]
      @ ''iQEzBAABCAAdFiEE0123456789abcdefghijklmnopqrstuvwxyzABCDEFGHIJKLMN'' @ [CHR 0x0a]
      @ ''OPQRSTUVWXYZ0123456789abcdefghijklmnopqrstuvwxyzABCDEFGHIJKLMNOPQR'' @ [CHR 0x0a]
      @ ''=abcd'' @ [CHR 0x0a]
      @ ''-----END PGP SIGNATURE-----'' @ [CHR 0x0a])"

lemma probe_armored_sig_file:
  "isArmorProtected (Some \<lparr>content = armored_sig, pos = 0, seekable = True\<rparr>) =
     ([], True, Some \<lparr>content = armored_sig, pos = 0, seekable = True\<rparr>)"
  by (simp add: armored_sig_def armor_eval cong: let_weak_cong)

lemma probe_armored_sig_pipe:
  "isArmorProtected (Some \<lparr>content = armored_sig, pos = 0, seekable = False\<rparr>) =
     ([Log Error ''Error processing file:''], True,
      Some \<lparr>content = armored_sig, pos = 100, seekable = False\<rparr>)"
  by (simp add: armored_sig_def armor_eval cong: let_weak_cong)

theorem probe_resets_only_a_seekable_file_witness:
  "isArmorProtected (Some \<lparr>content = armored_sig, pos = 0, seekable = True\<rparr>) =
     ([], True, Some \<lparr>content = armored_sig, pos = 0, seekable = True\<rparr>)
   \<and> isArmorProtected (Some \<lparr>content = armored_sig, pos = 0, seekable = False\<rparr>) =
       ([Log Error ''Error processing file:''], True,
        Some \<lparr>content = armored_sig, pos = 100, seekable = False\<rparr>)
   \<and> (0 :: nat) < length armored_sig
   \<and> snd (armor_Decode (Some \<lparr>content = armored_sig, pos = 0, seekable = False\<rparr>)) =
       Some \<lparr>content = armored_sig, pos = 100, seekable = False\<rparr>"
  using probe_resets_only_a_seekable_file [OF probe_armored_sig_file]
    probe_resets_only_a_seekable_file [OF probe_armored_sig_pipe]
    probe_armored_sig_file probe_armored_sig_pipe
  by (simp add: armored_sig_def bytes_of_def)

text \<open>
  C8 fails as stated: on a source that cannot seek, such as a pipe, the probe of the
  armored signature leaves the read position at 100, the bytes the buffered reader
  took, and logs the error of \<^verbatim>\<open>Seek\<close>.
\<close>

theorem probe_of_a_pipe_counterexample:
  "snd (snd (isArmorProtected (Some \<lparr>content = armored_sig, pos = 0, seekable = False\<rparr>))) =
     Some \<lparr>content = armored_sig, pos = 100, seekable = False\<rparr>
   \<and> pos \<lparr>content = armored_sig, pos = 100, seekable = False\<rparr> \<noteq> 0"
  by (simp add: probe_armored_sig_pipe)


subsection \<open>What the probe finds\<close>

lemma trim_left_suffix: "suffix (trim_left s) s"
proof (induction s rule: trim_left.induct)
  case (1 s)
  show ?case
  proof (cases "List.find (\<lambda>r. prefix r s) space_runes")
    case None
    then show ?thesis by (simp add: trim_left.simps [of s])
  next
    case (Some r)
    show ?thesis
    proof (cases "r = []")
      case True
      with Some show ?thesis by (simp add: trim_left.simps [of s])
    next
      case False
      from "1.IH" [OF Some False] have "suffix (trim_left (drop (length r) s)) (drop (length r) s)" .
      then have "suffix (trim_left (drop (length r) s)) s"
        by (rule suffix_order.trans) (rule suffix_drop)
      with Some False show ?thesis by (simp add: trim_left.simps [of s])
    qed
  qed
qed

lemma trim_right_prefix: "prefix (trim_right s) s"
proof (induction s rule: trim_right.induct)
  case (1 s)
  show ?case
  proof (cases "List.find (\<lambda>r. suffix r s) space_runes")
    case None
    then show ?thesis by (simp add: trim_right.simps [of s])
  next
    case (Some r)
    show ?thesis
    proof (cases "r = []")
      case True
      with Some show ?thesis by (simp add: trim_right.simps [of s])
    next
      case False
      from "1.IH" [OF Some False]
      have "prefix (trim_right (take (length s - length r) s)) (take (length s - length r) s)" .
      then have "prefix (trim_right (take (length s - length r) s)) s"
        by (rule prefix_order.trans) (rule take_is_prefix)
      with Some False show ?thesis by (simp add: trim_right.simps [of s])
    qed
  qed
qed

lemma sublist_transitive: "sublist xs ys \<Longrightarrow> sublist ys zs \<Longrightarrow> sublist xs zs"
  unfolding sublist_def by (metis append.assoc)

lemma bytes_TrimSpace_sublist: "sublist (bytes_TrimSpace s) s"
proof -
  have "sublist (trim_right (trim_left s)) (trim_left s)"
    using trim_right_prefix by (rule prefix_imp_sublist)
  moreover have "sublist (trim_left s) s"
    using trim_left_suffix by (rule suffix_imp_sublist)
  ultimately show ?thesis
    unfolding bytes_TrimSpace_def by (rule sublist_transitive)
qed

lemma no_marker_garbage:
  "\<not> sublist armorStart (stream r) \<Longrightarrow> fst (armor_garbage ign r) \<noteq> None"
  "True \<or> fst (armor_headers cont r) = None"
proof (induction ign r and cont r rule: armor_garbage_armor_headers.induct)
  case (1 ignoreNext r)
  obtain line pfx e r' where rl: "bufio_ReadLine r = (line, pfx, e, r')"
    by (cases "bufio_ReadLine r") auto
  from bufio_ReadLine_stream [OF rl] obtain z where st: "stream r = line @ z @ stream r'"
    by blast
  show ?case
  proof (cases e)
    case (Some err)
    with rl show ?thesis by (simp add: armor_garbage.simps [of ignoreNext r])
  next
    case None
    from st "1.prems" have nr': "\<not> sublist armorStart (stream r')"
      by (metis sublist_append_leftI append.assoc sublist_transitive)
    from st "1.prems" have nl: "\<not> sublist armorStart line"
      by (metis sublist_append_rightI sublist_transitive)
    have np: "\<not> prefix armorStart (bytes_TrimSpace line)"
    proof
      assume "prefix armorStart (bytes_TrimSpace line)"
      then have "sublist armorStart (bytes_TrimSpace line)" by (rule prefix_imp_sublist)
      then have "sublist armorStart line"
        using bytes_TrimSpace_sublist [of line] by (rule sublist_transitive)
      with nl show False ..
    qed
    from "1.IH"(1) [OF rl [symmetric, unfolded None] refl refl refl _ nr']
      "1.IH"(3) [OF rl [symmetric, unfolded None] refl refl refl _ _ nr']
    show ?thesis
      using rl None np
      by (auto simp: armor_garbage.simps [of ignoreNext r])
  qed
qed simp


text \<open>A pending read error means that the file has nothing left.\<close>

definition drained :: "bufio_Reader \<Rightarrow> bool" where
  "drained b = (rerr b \<noteq> None \<longrightarrow> unread (rd b) = [])"

lemma file_Read_error: "file_Read f n = (p, Some e, f') \<Longrightarrow> unread f' = []"
  by (auto simp: file_Read_def unread_def Let_def split: option.splits if_splits)

lemma bufio_fill_drained: "drained (bufio_fill b)"
  by (cases "file_Read (rd b) (bufSize - length (buf b))")
     (auto simp: bufio_fill_def drained_def dest: file_Read_error)

lemma split_at_newline:
  assumes "bf @ u = l @ d # rest" and "d \<notin> set l"
  shows "if d \<in> set bf then \<exists>aft. bf = l @ d # aft \<and> rest = aft @ u
         else \<exists>us. l = bf @ us \<and> u = us @ d # rest"
proof -
  from assms(1) consider us where "bf = l @ us" "us @ u = d # rest"
    | us where "bf @ us = l" "u = us @ d # rest"
    by (auto simp: append_eq_append_conv2)
  then show ?thesis
  proof cases
    case 1
    show ?thesis
    proof (cases us)
      case Nil
      with 1 assms(2) show ?thesis by auto
    next
      case (Cons x aft)
      with 1 have "x = d" "rest = aft @ u" by auto
      with 1 Cons show ?thesis by auto
    qed
  next
    case 2
    with assms(2) show ?thesis by auto
  qed
qed

lemma takeWhile_upto: "d \<notin> set l \<Longrightarrow> takeWhile (\<lambda>c. c \<noteq> d) (l @ d # aft) = l"
  by (induction l) auto

lemma bufio_ReadSlice_line:
  assumes "drained b" and "stream b = l @ d # rest" and "d \<notin> set l" and "length l < bufSize"
  shows "\<exists>b'. bufio_ReadSlice d b = (l @ [d], None, b') \<and> stream b' = rest \<and> drained b'"
  using assms
proof (induction d b rule: bufio_ReadSlice.induct)
  case (1 delim b)
  from "1.prems"(2) have eq: "buf b @ unread (rd b) = l @ delim # rest"
    by (simp add: stream_def)
  note sp = split_at_newline [OF eq "1.prems"(3)]
  show ?case
  proof (cases "delim \<in> set (buf b)")
    case True
    with sp obtain aft where m: "buf b = l @ delim # aft" "rest = aft @ unread (rd b)"
      by auto
    from m "1.prems"(3) have tw: "length (takeWhile (\<lambda>c. c \<noteq> delim) (buf b)) = length l"
      by (simp add: takeWhile_upto)
    from True tw m "1.prems"(1) show ?thesis
      by (simp add: bufio_ReadSlice.simps [of delim b] stream_def drained_def)
  next
    case False
    with sp obtain us where us: "l = buf b @ us" "unread (rd b) = us @ delim # rest"
      by auto
    from us "1.prems"(1) have ne: "rerr b = None" by (auto simp: drained_def)
    from us "1.prems"(4) have nf: "\<not> length (buf b) \<ge> bufSize" by simp
    from "1.IH" [OF False _ nf bufio_fill_drained _ "1.prems"(3) "1.prems"(4)] ne
      "1.prems"(2)
    obtain b' where "bufio_ReadSlice delim (bufio_fill b) = (l @ [delim], None, b')"
      "stream b' = rest" "drained b'"
      by (auto simp: bufio_fill_stream)
    with False ne nf show ?thesis
      by (simp add: bufio_ReadSlice.simps [of delim b])
  qed
qed

lemma bufio_ReadLine_line:
  assumes "drained b" and "stream b = l @ 10 # rest" and "10 \<notin> set l" and "length l < bufSize"
    and "l \<noteq> [] \<longrightarrow> last l \<noteq> 13"
  shows "\<exists>b'. bufio_ReadLine b = (l, False, None, b') \<and> stream b' = rest \<and> drained b'"
proof -
  from bufio_ReadSlice_line [OF assms(1-4)] obtain b' where
    rs: "bufio_ReadSlice 10 b = (l @ [10], None, b')" and b': "stream b' = rest" "drained b'"
    by blast
  have "bufio_ReadLine b = (l, False, None, b')"
  proof (cases l rule: rev_cases)
    case Nil
    with rs show ?thesis by (simp add: bufio_ReadLine_def)
  next
    case (snoc ys y)
    with assms(5) have "y \<noteq> 13" by simp
    with rs snoc show ?thesis
      by (simp add: bufio_ReadLine_def nth_append)
  qed
  with b' show ?thesis by blast
qed

text \<open>A line that starts and ends with a visible ASCII character has nothing to
  trim.\<close>

definition graphic :: "byte \<Rightarrow> bool" where
  "graphic c = (0x21 \<le> c \<and> c \<le> 0x7e)"

lemma space_runes_ends:
  "r \<in> set space_runes \<Longrightarrow> r \<noteq> [] \<and> \<not> graphic (hd r) \<and> \<not> graphic (last r)"
  by (auto simp: space_runes_def graphic_def)

lemma trim_left_graphic:
  assumes "s \<noteq> []" and "graphic (hd s)"
  shows "trim_left s = s"
proof -
  have "List.find (\<lambda>r. prefix r s) space_runes = None"
  proof (rule ccontr)
    assume "List.find (\<lambda>r. prefix r s) space_runes \<noteq> None"
    then obtain r where r: "r \<in> set space_runes" "prefix r s"
      by (auto simp: find_None_iff)
    from space_runes_ends [OF r(1)] r(2) assms(1) have "hd r = hd s" "\<not> graphic (hd r)"
      by (auto simp: prefix_def)
    with assms(2) show False by simp
  qed
  then show ?thesis by (simp add: trim_left.simps [of s])
qed

lemma trim_right_graphic:
  assumes "s \<noteq> []" and "graphic (last s)"
  shows "trim_right s = s"
proof -
  have "List.find (\<lambda>r. suffix r s) space_runes = None"
  proof (rule ccontr)
    assume "List.find (\<lambda>r. suffix r s) space_runes \<noteq> None"
    then obtain r where r: "r \<in> set space_runes" "suffix r s"
      by (auto simp: find_None_iff)
    from space_runes_ends [OF r(1)] r(2) assms(1) have "last r = last s" "\<not> graphic (last r)"
      by (auto simp: suffix_def)
    with assms(2) show False by simp
  qed
  then show ?thesis by (simp add: trim_right.simps [of s])
qed

lemma bytes_TrimSpace_graphic:
  "s \<noteq> [] \<Longrightarrow> graphic (hd s) \<Longrightarrow> graphic (last s) \<Longrightarrow> bytes_TrimSpace s = s"
  by (simp add: bytes_TrimSpace_def trim_left_graphic trim_right_graphic)

lemma bytes_TrimSpace_Nil: "bytes_TrimSpace [] = []"
  by (simp add: bytes_TrimSpace_def trim_left.simps [of "[]"] trim_right.simps [of "[]"]
      space_runes_def)


text \<open>A block type and a header that fit a line of the reader: no line feed in them,
  the line shorter than the buffer, a key that starts and a value that ends with a
  visible ASCII character.\<close>

definition type_ok :: "byte list \<Rightarrow> bool" where
  "type_ok typ = (typ \<noteq> [] \<and> 10 \<notin> set typ \<and> length typ + 16 < bufSize)"

definition header_ok :: "byte list \<times> byte list \<Rightarrow> bool" where
  "header_ok h =
     (10 \<notin> set (fst h) \<and> 10 \<notin> set (snd h)
      \<and> length (fst h) + length (snd h) + 2 < bufSize
      \<and> (fst h \<noteq> [] \<longrightarrow> graphic (hd (fst h)))
      \<and> snd h \<noteq> [] \<and> graphic (last (snd h)))"

lemma headers_accepted:
  assumes "drained b" and "stream b = concat (map header_line hdrs) @ [10] @ body"
    and "\<forall>h\<in>set hdrs. header_ok h"
  shows "fst (armor_headers False b) = None"
  using assms
proof (induction hdrs arbitrary: b)
  case Nil
  from Nil.prems(2) have st: "stream b = [] @ 10 # body" by simp
  from bufio_ReadLine_line [OF Nil.prems(1) st] obtain b' where
    "bufio_ReadLine b = ([], False, None, b')"
    by (auto simp: bufSize_def)
  then show ?case
    by (simp add: armor_headers.simps [of False b] bytes_TrimSpace_Nil)
next
  case (Cons h hdrs)
  define l where "l = fst h @ bytes_of '': '' @ snd h"
  from Cons.prems(3) have ok: "header_ok h" by simp
  from ok have l1: "10 \<notin> set l" "length l < bufSize" "l \<noteq> []"
    by (auto simp: l_def header_ok_def bytes_of_def)
  from ok have lastl: "last l = last (snd h)" "graphic (last l)"
    by (auto simp: l_def header_ok_def)
  from ok have hdl: "graphic (hd l)"
    by (cases "fst h") (auto simp: l_def header_ok_def bytes_of_def graphic_def)
  from lastl have l13: "l \<noteq> [] \<longrightarrow> last l \<noteq> 13" by (auto simp: graphic_def)
  from Cons.prems(2) have st: "stream b = l @ 10 # (concat (map header_line hdrs) @ [10] @ body)"
    by (simp add: l_def header_line_def [of h])
  from bufio_ReadLine_line [OF Cons.prems(1) st l1(1) l1(2) l13] obtain b' where
    rl: "bufio_ReadLine b = (l, False, None, b')"
    and b': "stream b' = concat (map header_line hdrs) @ [10] @ body" "drained b'"
    by blast
  have tr: "bytes_TrimSpace l = l" using l1(3) hdl lastl(2) by (rule bytes_TrimSpace_graphic)
  have sub: "sublist (bytes_of '': '') l" by (simp add: l_def)
  from Cons.IH [OF b'(2) b'(1)] Cons.prems(3) have "fst (armor_headers False b') = None"
    by simp
  with rl tr sub l1(3) show ?case
    by (simp add: armor_headers.simps [of False b])
qed

lemma armor_text_accepted:
  assumes "type_ok typ" and "\<forall>h\<in>set hdrs. header_ok h"
    and "drained b" and "stream b = armor_text typ hdrs body"
  shows "fst (armor_garbage False b) = None"
proof -
  define l where "l = armorStart @ typ @ armorEndOfLine"
  from assms(1) have l1: "10 \<notin> set l" "length l < bufSize" "l \<noteq> []"
    by (auto simp: l_def type_ok_def armorStart_def armorEndOfLine_def bytes_of_def)
  have ends: "hd l = 45" "last l = 45"
    by (simp_all add: l_def armorStart_def armorEndOfLine_def bytes_of_def)
  then have g: "graphic (hd l)" "graphic (last l)" by (simp_all add: graphic_def)
  from ends have l13: "l \<noteq> [] \<longrightarrow> last l \<noteq> 13" by simp
  from assms(4) have st: "stream b = l @ 10 # (concat (map header_line hdrs) @ [10] @ body)"
    by (simp add: l_def armor_text_def)
  from bufio_ReadLine_line [OF assms(3) st l1(1) l1(2) l13] obtain b' where
    rl: "bufio_ReadLine b = (l, False, None, b')"
    and b': "stream b' = concat (map header_line hdrs) @ [10] @ body" "drained b'"
    by blast
  have tr: "bytes_TrimSpace l = l" using l1(3) g by (rule bytes_TrimSpace_graphic)
  from assms(1) have len: "length l > length armorStart + length armorEndOfLine"
    by (simp add: l_def type_ok_def)
  have pre: "prefix armorStart l" by (simp add: l_def)
  from headers_accepted [OF b'(2) b'(1) assms(2)] rl tr len pre show ?thesis
    by (simp add: armor_garbage.simps [of False b])
qed

definition opened :: "byte list \<Rightarrow> bool \<Rightarrow> os_File option" where
  "opened bs sk = Some \<lparr>content = bs, pos = 0, seekable = sk\<rparr>"

lemma isArmorProtected_garbage:
  "fst (snd (isArmorProtected f)) =
     (fst (armor_garbage False \<lparr>buf = [], rd = f, rerr = None\<rparr>) = None)"
  by (simp add: isArmorProtected_def armor_Decode_def bufio_NewReaderSize_def case_prod_beta)

lemma probe_without_marker:
  assumes "\<not> sublist armorStart (unread f)"
  shows "\<not> fst (snd (isArmorProtected f))"
proof -
  let ?b = "\<lparr>buf = [], rd = f, rerr = None\<rparr>"
  have "stream ?b = unread f" by (simp add: stream_def)
  with assms have "fst (armor_garbage False ?b) \<noteq> None"
    by (intro no_marker_garbage(1)) simp
  then show ?thesis by (simp add: isArmorProtected_garbage)
qed

lemma probe_of_armor_text:
  assumes "type_ok typ" and "\<forall>h\<in>set hdrs. header_ok h"
  shows "fst (snd (isArmorProtected (opened (armor_text typ hdrs body) sk)))"
proof -
  let ?b = "\<lparr>buf = [], rd = opened (armor_text typ hdrs body) sk, rerr = None\<rparr>"
  have "drained ?b" by (simp add: drained_def)
  moreover have "stream ?b = armor_text typ hdrs body"
    by (simp add: stream_def unread_def opened_def)
  ultimately have "fst (armor_garbage False ?b) = None"
    using assms by (intro armor_text_accepted) auto
  then show ?thesis by (simp add: isArmorProtected_garbage)
qed

text \<open>
  C7. A file that holds the armored encoding of a payload \<open>x\<close>, as \<^verbatim>\<open>armor.Encode\<close>
  writes it, is classified as armored, whatever the payload: for the block types of a
  signature and of a public key without headers, and for every block type and headers
  that fit a line of the reader. A file in which the start marker \<^verbatim>\<open>-----BEGIN \<close> does
  not occur is classified as binary.
\<close>

theorem classification_of_armored_and_binary:
  "fst (snd (isArmorProtected (opened (armor_Encode (bytes_of ''PGP SIGNATURE'') [] x) sk)))
   \<and> fst (snd (isArmorProtected (opened (armor_Encode (bytes_of ''PGP PUBLIC KEY BLOCK'') [] x) sk)))
   \<and> (type_ok typ \<and> (\<forall>h\<in>set hdrs. header_ok h)
        \<longrightarrow> fst (snd (isArmorProtected (opened (armor_Encode typ hdrs x) sk))))
   \<and> (\<not> sublist armorStart y \<longrightarrow> \<not> fst (snd (isArmorProtected (opened y sk))))"
proof -
  have "type_ok (bytes_of ''PGP SIGNATURE'')" "type_ok (bytes_of ''PGP PUBLIC KEY BLOCK'')"
    by (simp_all add: type_ok_def bytes_of_def bufSize_def)
  then have "fst (snd (isArmorProtected (opened (armor_Encode (bytes_of ''PGP SIGNATURE'') [] x) sk)))"
    "fst (snd (isArmorProtected (opened (armor_Encode (bytes_of ''PGP PUBLIC KEY BLOCK'') [] x) sk)))"
    unfolding armor_Encode_def by (simp_all add: probe_of_armor_text)
  moreover have "type_ok typ \<and> (\<forall>h\<in>set hdrs. header_ok h)
        \<longrightarrow> fst (snd (isArmorProtected (opened (armor_Encode typ hdrs x) sk)))"
    unfolding armor_Encode_def by (simp add: probe_of_armor_text)
  moreover have "\<not> sublist armorStart y \<longrightarrow> \<not> fst (snd (isArmorProtected (opened y sk)))"
    using probe_without_marker [of "opened y sk"] by (simp add: unread_def opened_def)
  ultimately show ?thesis by blast
qed

theorem classification_of_armored_and_binary_witness:
  "type_ok (bytes_of ''PGP MESSAGE'')
   \<and> header_ok (bytes_of ''Version'', bytes_of ''GnuPG v2'')
   \<and> fst (snd (isArmorProtected (opened (armor_Encode (bytes_of ''PGP MESSAGE'')
                [(bytes_of ''Version'', bytes_of ''GnuPG v2'')] hello) True)))
   \<and> \<not> sublist armorStart [0x89, 0x01, 0x33, 0x04]
   \<and> \<not> fst (snd (isArmorProtected (opened [0x89, 0x01, 0x33, 0x04] True)))"
  using classification_of_armored_and_binary [of hello True "bytes_of ''PGP MESSAGE''"
      "[(bytes_of ''Version'', bytes_of ''GnuPG v2'')]" "[0x89, 0x01, 0x33, 0x04]"]
  by (simp add: type_ok_def header_ok_def graphic_def bufSize_def bytes_of_def armorStart_def
      sublist_code)

subsection \<open>The run\<close>

text \<open>The error of the signature check that the probe of the signature file
  selects.\<close>

definition check_error :: "'kr world \<Rightarrow> 'kr locals \<Rightarrow> go_error option" where
  "check_error w l = (case check_signature w l of (es, armored, err, sigf) \<Rightarrow> err)"

text \<open>The events that are neither a call of \<^verbatim>\<open>json.Marshal\<close> nor a request to the log
  service.\<close>

definition quiet :: "event list \<Rightarrow> bool" where
  "quiet es = (filter is_Marshal es = [] \<and> filter is_HttpDo es = [])"

lemma quiet_simps:
  "quiet []"
  "quiet (es @ es') = (quiet es \<and> quiet es')"
  "quiet (Log lv msg # es) = quiet es"
  "quiet (LogErr lv err # es) = quiet es"
  "quiet (HttpGet u # es) = quiet es"
  "quiet (HashGenerator a bs # es) = quiet es"
  "quiet (Marshal en # es) = False"
  "quiet (HttpDo rq # es) = False"
  by (auto simp: quiet_def)


lemma and_then_quiet:
  "quiet (fst m) \<Longrightarrow> (\<And>x. quiet (fst (f x))) \<Longrightarrow> quiet (fst (and_then m f))"
  by (cases m; cases "snd m") (auto simp: and_then_def case_prod_beta quiet_simps)

lemma isArmorProtected_quiet: "quiet (fst (isArmorProtected f))"
  by (simp add: isArmorProtected_def case_prod_beta quiet_simps)

lemma hashGenerator_quiet: "quiet (fst (hashGenerator a b))"
  by (simp add: hashGenerator_def Let_def case_prod_beta quiet_simps split: sum.splits)

lemma format_inputs_quiet: "quiet (fst (format_inputs w))"
  by (simp add: format_inputs_def log_Fatal_def quiet_simps split: sum.splits)

lemma download_quiet: "quiet (fst (download w))"
  unfolding download_def Let_def case_prod_beta
  by (rule and_then_quiet) (simp_all add: quiet_simps split: option.splits)

lemma hash_artifact_quiet: "quiet (fst (hash_artifact w body))"
  unfolding hash_artifact_def Let_def
  by (rule and_then_quiet) (simp_all add: quiet_simps hashGenerator_quiet)

lemma open_logged_quiet: "quiet (fst (open_logged w name msg))"
  by (simp add: open_logged_def quiet_simps split: sum.splits)

lemma load_keyring_quiet: "quiet (fst (load_keyring w))"
  by (simp add: load_keyring_def case_prod_beta quiet_simps open_logged_quiet
      isArmorProtected_quiet)

lemma prepare_quiet: "quiet (fst (prepare w))"
  unfolding prepare_def case_prod_beta
  by (intro and_then_quiet format_inputs_quiet download_quiet hash_artifact_quiet
      load_keyring_quiet) (simp add: quiet_simps)

lemma check_signature_quiet: "quiet (fst (check_signature w l))"
  by (simp add: check_signature_def case_prod_beta isArmorProtected_quiet)

lemma verify_quiet: "quiet (fst (verify w l))"
  by (simp add: verify_def case_prod_beta quiet_simps check_signature_quiet)

lemma verify_failure:
  "check_error w l \<noteq> None \<Longrightarrow> snd (verify w l) = Inl (Exit 1)"
  by (auto simp: verify_def check_error_def split: prod.splits)

text \<open>
  C1. When the run gets as far as the signature check and the check that is selected
  returns an error, the run ends with exit status 1, and it has neither called
  \<^verbatim>\<open>json.Marshal\<close> nor sent a request to the log service: its last two lines are the
  errors it logs.
\<close>

theorem failed_verification_is_fatal:
  assumes "prepare w = (es, Inr l)" and "check_error w l \<noteq> None"
  shows "snd (Run w) = Inl (Exit 1) \<and> exit_status (snd (Run w)) = 1
         \<and> filter is_Marshal (fst (Run w)) = [] \<and> filter is_HttpDo (fst (Run w)) = []
         \<and> (\<exists>es' msg. fst (Run w) =
               es @ es' @ [Log Error msg, Log Error ''Signature Verification failed: ''])"
proof -
  obtain es1 armored err sigf where c: "check_signature w l = (es1, armored, err, sigf)"
    by (cases "check_signature w l") auto
  with assms(2) have e: "err \<noteq> None" by (simp add: check_error_def)
  define msg where "msg = (if armored then ''Error reading Armor Detatched Signature: ''
                              else ''Error reading Detatched Signature: '')"
  from c e have v: "verify w l =
      (es1 @ [Log Error msg, Log Error ''Signature Verification failed: ''], Inl (Exit 1))"
    by (simp add: verify_def msg_def)
  with assms(1) have r: "Run w =
      (es @ es1 @ [Log Error msg, Log Error ''Signature Verification failed: ''], Inl (Exit 1))"
    by (simp add: Run_def make_entry_def and_then_def)
  from prepare_quiet [of w] assms(1) have "quiet es" by simp
  moreover from verify_quiet [of w l] v have "quiet es1" by (simp add: quiet_simps)
  ultimately show ?thesis
    using r by (auto simp: quiet_def exit_status_def)
qed










lemma download_response:
  assumes "http_Get w (viper_GetString w ''artifact-url'') = (Some r, err)"
  shows "download w =
           ([Log Info ''Download artifact..'', HttpGet (viper_GetString w ''artifact-url'')]
              @ (case err of None \<Rightarrow> [] | Some e \<Rightarrow> [LogErr Error e])
              @ [Log Info ''Contents fetched..'']
              @ (if resp_ReadErr r \<noteq> None then [Log Error ''Error reading response body: ''] else []),
            Inr (resp_Body r))"
  using assms by (simp add: download_def Let_def and_then_def)

lemma response_is_hashed:
  assumes "format_inputs w = (es, Inr x)"
    and "http_Get w (viper_GetString w ''artifact-url'') = (Some r, err)"
  shows "HashGenerator (viper_GetString w ''artifact-url'') (resp_Body r) \<in> set (fst (Run w))"
proof -
  have "HashGenerator (viper_GetString w ''artifact-url'') (resp_Body r)
          \<in> set (fst (hash_artifact w (resp_Body r)))"
    by (simp add: hash_artifact_def Let_def and_then_def case_prod_beta)
  moreover from assms(2) have "snd (download w) = Inr (resp_Body r)"
    by (simp add: download_response)
  ultimately have "HashGenerator (viper_GetString w ''artifact-url'') (resp_Body r)
          \<in> set (fst (prepare w))"
    using assms(1)
    by (cases "download w")
       (auto simp: prepare_def and_then_def case_prod_beta split: prod.splits sum.splits)
  then have "HashGenerator (viper_GetString w ''artifact-url'') (resp_Body r)
          \<in> set (fst (make_entry w))"
    by (cases "prepare w") (auto simp: make_entry_def and_then_def case_prod_beta split: sum.splits)
  then show ?thesis
    by (cases "make_entry w") (auto simp: Run_def and_then_def case_prod_beta split: sum.splits)
qed

text \<open>
  C5, as the code has it. When \<^verbatim>\<open>Get\<close> returns a response, whatever its status code
  (and whether or not it also returns an error), the download does not stop the run:
  it logs the error, if there is one, reads the body and hands it on, and the run
  calls \<^verbatim>\<open>hashGenerator\<close> on it.
\<close>

theorem response_body_is_hashed_whatever_the_status:
  assumes "format_inputs w = (es, Inr x)"
    and "http_Get w (viper_GetString w ''artifact-url'') = (Some r, err)"
  shows "download w =
           ([Log Info ''Download artifact..'', HttpGet (viper_GetString w ''artifact-url'')]
              @ (case err of None \<Rightarrow> [] | Some e \<Rightarrow> [LogErr Error e])
              @ [Log Info ''Contents fetched..'']
              @ (if resp_ReadErr r \<noteq> None then [Log Error ''Error reading response body: ''] else []),
            Inr (resp_Body r))
         \<and> HashGenerator (viper_GetString w ''artifact-url'') (resp_Body r) \<in> set (fst (Run w))"
  using assms by (simp add: download_response response_is_hashed)

subsection \<open>The shape of the entry\<close>


definition fs_bytes :: "'kr world \<Rightarrow> string \<Rightarrow> byte list" where
  "fs_bytes w name = (case fs w name of Inl err \<Rightarrow> [] | Inr (bs, sk) \<Rightarrow> bs)"


















subsection \<open>An example world\<close>

text \<open>
  A world for the examples. The key is a binary file, key rings are the bytes of the
  key file, and both signature checks accept exactly when the key ring is the key, the
  data are \<^verbatim>\<open>hello\<close> and a newline and the signature source is not empty. The OpenPGP
  functions read their source to its end. The artifact is what \<open>resp\<close> says, the
  signature file holds \<open>sg\<close>, and the log service answers after \<open>secs\<close> seconds.
\<close>

definition binary_sig :: "byte list" where
  "binary_sig = [0x89, 0x01, 0x33, 0x04, 0x00, 0x01, 0x08, 0x00, 0x1d, 0x16]"

definition binary_key :: "byte list" where
  "binary_key = [0x99, 0x01, 0x0d, 0x04, 0x5f, 0xa8, 0x5c, 0x02]"

definition example_config :: "string \<Rightarrow> string" where
  "example_config key =
     (if key = ''rekor_server'' then ''https://rekor.example''
      else if key = ''signature'' then ''hello.sig''
      else if key = ''public-key'' then ''key.gpg''
      else if key = ''artifact-url'' then ''https://example.com/hello''
      else [])"

definition example_fs :: "byte list \<Rightarrow> string \<Rightarrow> go_error + byte list \<times> bool" where
  "example_fs sg name =
     (if name = ''hello.sig'' then Inr (sg, True)
      else if name = ''key.gpg'' then Inr (binary_key, True)
      else Inl (Err ''no such file''))"

definition example_keyring :: "byte list option \<Rightarrow> (byte list \<times> go_error option) \<times> nat" where
  "example_keyring r =
     (case r of
        None \<Rightarrow> (([], Some ErrInvalid), 0)
      | Some bs \<Rightarrow> ((bs, None), length bs))"

definition example_check ::
  "byte list \<Rightarrow> byte list \<Rightarrow> byte list option \<Rightarrow> go_error option \<times> nat" where
  "example_check kr body r =
     (case r of
        None \<Rightarrow> (Some ErrInvalid, 0)
      | Some sg \<Rightarrow>
          (if kr = binary_key \<and> body = hello \<and> sg \<noteq> [] then None
           else Some (Err ''invalid signature''),
           length sg))"

definition ok_response :: response where
  "ok_response = \<lparr>StatusCode = 200, resp_Body = bytes_of ''{}'', resp_ReadErr = None\<rparr>"

definition example :: "byte list \<Rightarrow> response \<Rightarrow> nat \<Rightarrow> byte list world" where
  "example sg resp secs =
     \<lparr>viper_GetString = example_config,
      pkg_FormatSignature = (\<lambda>name. Inr ''signature''),
      pkg_FormatPubKey = (\<lambda>name. Inr ''public key''),
      http_Get = (\<lambda>url. (Some resp, None)),
      fs = example_fs sg,
      openpgp_ReadArmoredKeyRing = example_keyring,
      openpgp_ReadKeyRing = example_keyring,
      openpgp_CheckArmoredDetachedSignature = example_check,
      openpgp_CheckDetachedSignature = example_check,
      json_Marshal = (\<lambda>en. Inr (bytes_of ''{}'')),
      url_err = (\<lambda>method url. None),
      client_Do = (\<lambda>rq. Inr ok_response),
      service_seconds = (\<lambda>rq. secs),
      json_Unmarshal = (\<lambda>bs. Inr ''ok'')\<rparr>"

text \<open>The artifact with one letter changed.\<close>

definition tampered :: "byte list" where
  "tampered = bytes_of ''jello'' @ [10]"

definition artifact_response :: "nat \<Rightarrow> byte list \<Rightarrow> response" where
  "artifact_response code bs = \<lparr>StatusCode = code, resp_Body = bs, resp_ReadErr = None\<rparr>"

text \<open>What the run has done in the example world when it reaches the signature check:
  its local variables and its events.\<close>

definition prepared :: "byte list \<Rightarrow> byte list \<Rightarrow> byte list locals" where
  "prepared sg bs =
     \<lparr>sig = ''signature'', pub_key = ''public key'', readBody = bs,
      generatedSha = hex_EncodeToString (sha256_Sum bs),
      keyRing = binary_key,
      pubkeyRingReader = Some \<lparr>content = binary_key, pos = 8, seekable = True\<rparr>,
      sigkeyRingReader = Some \<lparr>content = sg, pos = 0, seekable = True\<rparr>\<rparr>"

definition prepared_events :: "byte list \<Rightarrow> event list" where
  "prepared_events bs =
     [Log Info ''Download artifact..'', HttpGet ''https://example.com/hello'',
      Log Info ''Contents fetched..'', HashGenerator ''https://example.com/hello'' bs]"

text \<open>The local variables after the check has read the signature file to its end.\<close>

definition verified :: "byte list \<Rightarrow> byte list \<Rightarrow> byte list locals" where
  "verified sg bs =
     (prepared sg bs)\<lparr>sigkeyRingReader := Some \<lparr>content = sg, pos = length sg, seekable = True\<rparr>\<rparr>"

definition hello_request :: request where
  "hello_request =
     \<lparr>req_Method = ''POST'', req_URL = ''https://rekor.example/api/v1/add'',
      req_Body = bytes_of ''{}'', req_Timeout = 180\<rparr>"

lemma example_lengths:
  "length binary_sig = 10" "length binary_key = 8" "length armored_sig = 199"
  by (simp_all add: binary_sig_def binary_key_def armored_sig_def bytes_of_def)

lemma probe_binary_sig:
  "isArmorProtected (Some \<lparr>content = binary_sig, pos = 0, seekable = True\<rparr>) =
     ([], False, Some \<lparr>content = binary_sig, pos = 0, seekable = True\<rparr>)"
  "isArmorProtected (Some \<lparr>content = binary_sig, pos = 10, seekable = True\<rparr>) =
     ([], False, Some \<lparr>content = binary_sig, pos = 0, seekable = True\<rparr>)"
  by (simp_all add: binary_sig_def armor_eval cong: let_weak_cong)

lemma probe_binary_key:
  "isArmorProtected (Some \<lparr>content = binary_key, pos = 0, seekable = True\<rparr>) =
     ([], False, Some \<lparr>content = binary_key, pos = 0, seekable = True\<rparr>)"
  "isArmorProtected (Some \<lparr>content = binary_key, pos = 8, seekable = True\<rparr>) =
     ([], False, Some \<lparr>content = binary_key, pos = 0, seekable = True\<rparr>)"
  by (simp_all add: binary_key_def armor_eval cong: let_weak_cong)

lemma probe_armored_sig_end:
  "isArmorProtected (Some \<lparr>content = armored_sig, pos = 199, seekable = True\<rparr>) =
     ([], False, Some \<lparr>content = armored_sig, pos = 0, seekable = True\<rparr>)"
  by (simp add: armored_sig_def armor_eval cong: let_weak_cong)

lemma nonempty_files: "binary_sig \<noteq> []" "armored_sig \<noteq> []" "tampered \<noteq> hello"
  by (simp_all add: binary_sig_def armored_sig_def hello_def tampered_def bytes_of_def)

lemmas example_eval = example_def example_config_def example_fs_def example_keyring_def
  example_check_def artifact_response_def ok_response_def
  prepare_def format_inputs_def download_def hash_artifact_def load_keyring_def
  open_logged_def os_Open_def ioutil_ReadFile_def reader_def advance_def and_then_def
  log_Fatal_def log_Fatal_err_def strings_HasSuffix_def hashGenerator_plain
  check_signature_def check_error_def verify_def probe_again_def build_def marshal_def
  upload_def upload_request_def http_Client_Do_def make_entry_def Run_def Let_def
  example_lengths nonempty_files

lemma prepare_example:
  "prepare (example sg (artifact_response code bs) secs) = (prepared_events bs, Inr (prepared sg bs))"
  by (simp add: example_eval prepared_def prepared_events_def probe_binary_key)

lemma check_binary_sig:
  "check_signature (example binary_sig resp secs) (prepared binary_sig bs) =
     ([], False, if bs = hello then None else Some (Err ''invalid signature''),
      Some \<lparr>content = binary_sig, pos = 10, seekable = True\<rparr>)"
  by (simp add: example_eval prepared_def probe_binary_sig)

lemma check_armored_sig:
  "check_signature (example armored_sig resp secs) (prepared armored_sig hello) =
     ([], True, None, Some \<lparr>content = armored_sig, pos = 199, seekable = True\<rparr>)"
  by (simp add: example_eval prepared_def probe_armored_sig_file)

lemma verify_example:
  "verify (example binary_sig resp secs) (prepared binary_sig hello) =
     ([Log Info ''Signature validation passed''], Inr (verified binary_sig hello))"
  "verify (example armored_sig resp secs) (prepared armored_sig hello) =
     ([Log Info ''Signature validation passed''], Inr (verified armored_sig hello))"
  by (simp_all add: verify_def check_binary_sig check_armored_sig verified_def example_lengths)

lemma probe_again_example:
  "probe_again (verified binary_sig hello) = ([], False)"
  "probe_again (verified armored_sig hello) = ([], False)"
  by (simp_all add: probe_again_def verified_def prepared_def example_lengths
      probe_binary_sig probe_binary_key probe_armored_sig_end)

lemma build_example:
  "sg = binary_sig \<or> sg = armored_sig \<Longrightarrow>
   build (example sg resp secs) (verified sg hello) =
     ([Marshal (RekorEntry ''5891b5b522d5df086d0ff0b110fbd9d21bb4fc7163af34d08286a2e846f6be03''
                  ''https://example.com/hello'' sg binary_key)],
      Inr (bytes_of ''{}''))"
  using probe_again_example
  by (auto simp: build_def Let_def and_then_def marshal_def example_def example_config_def
      example_fs_def ioutil_ReadFile_def verified_def prepared_def sha256_hello)

lemma make_entry_example:
  "sg = binary_sig \<or> sg = armored_sig \<Longrightarrow>
   make_entry (example sg (artifact_response code hello) secs) =
     (prepared_events hello
        @ [Log Info ''Signature validation passed'',
           Marshal (RekorEntry ''5891b5b522d5df086d0ff0b110fbd9d21bb4fc7163af34d08286a2e846f6be03''
                      ''https://example.com/hello'' sg binary_key)],
      Inr (bytes_of ''{}''))"
  using verify_example [of "artifact_response code hello" secs]
    build_example [of sg "artifact_response code hello" secs]
  by (auto simp: make_entry_def prepare_example and_then_def)

lemma upload_example:
  "upload (example sg resp secs) (bytes_of ''{}'') =
     (if 180 < secs
      then ([Log Info ''Uploading manifest to Rekor.'', HttpDo hello_request,
             LogErr Fatal DeadlineExceeded], Inl (Exit 1))
      else ([Log Info ''Uploading manifest to Rekor.'', HttpDo hello_request,
             Log Info ''Status: ''], Inr ()))"
  by (simp add: upload_def upload_request_def http_Client_Do_def Let_def and_then_def
      log_Fatal_err_def example_def example_config_def ok_response_def hello_request_def)

lemma run_example:
  "sg = binary_sig \<or> sg = armored_sig \<Longrightarrow>
   Run (example sg (artifact_response code hello) secs) =
     (prepared_events hello
        @ [Log Info ''Signature validation passed'',
           Marshal (RekorEntry ''5891b5b522d5df086d0ff0b110fbd9d21bb4fc7163af34d08286a2e846f6be03''
                      ''https://example.com/hello'' sg binary_key),
           Log Info ''Uploading manifest to Rekor.'', HttpDo hello_request]
        @ (if 180 < secs then [LogErr Fatal DeadlineExceeded] else [Log Info ''Status: '']),
      if 180 < secs then Inl (Exit 1) else Inr ())"
  by (simp add: Run_def make_entry_example upload_example and_then_def)

lemma example_world:
  "viper_GetString (example sg resp secs) ''rekor_server'' = ''https://rekor.example''"
  "viper_GetString (example sg resp secs) ''artifact-url'' = ''https://example.com/hello''"
  "viper_GetString (example sg resp secs) ''signature'' = ''hello.sig''"
  "viper_GetString (example sg resp secs) ''public-key'' = ''key.gpg''"
  "url_err (example sg resp secs) method url = None"
  "service_seconds (example sg resp secs) rq = secs"
  "http_Get (example sg resp secs) url = (Some resp, None)"
  "format_inputs (example sg resp secs) = ([], Inr (''signature'', ''public key''))"
  "fs_bytes (example sg resp secs) ''hello.sig'' = sg"
  "fs_bytes (example sg resp secs) ''key.gpg'' = binary_key"
  "client_Do (example sg resp secs) rq = Inr ok_response"
  "json_Unmarshal (example sg resp secs) bs = Inr ''ok''"
  by (simp_all add: example_def example_config_def example_fs_def format_inputs_def fs_bytes_def)

lemma artifact_response_simps:
  "StatusCode (artifact_response code bs) = code"
  "resp_Body (artifact_response code bs) = bs"
  "resp_ReadErr (artifact_response code bs) = None"
  by (simp_all add: artifact_response_def)


theorem failed_verification_is_fatal_witness:
  "prepare (example binary_sig (artifact_response 200 tampered) 5) =
     (prepared_events tampered, Inr (prepared binary_sig tampered))
   \<and> check_error (example binary_sig (artifact_response 200 tampered) 5)
        (prepared binary_sig tampered) = Some (Err ''invalid signature'')
   \<and> snd (Run (example binary_sig (artifact_response 200 tampered) 5)) = Inl (Exit 1)
   \<and> exit_status (snd (Run (example binary_sig (artifact_response 200 tampered) 5))) = 1
   \<and> filter is_Marshal (fst (Run (example binary_sig (artifact_response 200 tampered) 5))) = []
   \<and> filter is_HttpDo (fst (Run (example binary_sig (artifact_response 200 tampered) 5))) = []"
proof -
  have c: "check_error (example binary_sig (artifact_response 200 tampered) 5)
        (prepared binary_sig tampered) = Some (Err ''invalid signature'')"
    by (simp add: check_error_def check_binary_sig nonempty_files)
  then have "check_error (example binary_sig (artifact_response 200 tampered) 5)
        (prepared binary_sig tampered) \<noteq> None"
    by simp
  from failed_verification_is_fatal [OF prepare_example this] c prepare_example
  show ?thesis by (simp add: exit_status_def)
qed


theorem response_body_is_hashed_whatever_the_status_witness:
  "format_inputs (example binary_sig (artifact_response 404 hello) 5) =
     ([], Inr (''signature'', ''public key''))
   \<and> http_Get (example binary_sig (artifact_response 404 hello) 5) ''https://example.com/hello'' =
       (Some (artifact_response 404 hello), None)
   \<and> download (example binary_sig (artifact_response 404 hello) 5) =
       ([Log Info ''Download artifact..'', HttpGet ''https://example.com/hello'',
         Log Info ''Contents fetched..''], Inr hello)
   \<and> HashGenerator ''https://example.com/hello'' hello
        \<in> set (fst (Run (example binary_sig (artifact_response 404 hello) 5)))"
  using response_body_is_hashed_whatever_the_status
      [of "example binary_sig (artifact_response 404 hello) 5" "[]"
          "(''signature'', ''public key'')" "artifact_response 404 hello" None]
  by (simp add: example_world artifact_response_simps)

text \<open>
  C5 fails as stated: when the artifact URL answers with the status 500 and a body, the
  run does not stop. In the example world it hashes the body, checks the signature,
  sends the entry to the log service and returns.
\<close>

theorem hashed_after_http_500_counterexample:
  "StatusCode (artifact_response 500 hello) = 500
   \<and> http_Get (example binary_sig (artifact_response 500 hello) 5) ''https://example.com/hello'' =
       (Some (artifact_response 500 hello), None)
   \<and> Run (example binary_sig (artifact_response 500 hello) 5) =
       ([Log Info ''Download artifact..'', HttpGet ''https://example.com/hello'',
         Log Info ''Contents fetched..'', HashGenerator ''https://example.com/hello'' hello,
         Log Info ''Signature validation passed'',
         Marshal (RekorEntry ''5891b5b522d5df086d0ff0b110fbd9d21bb4fc7163af34d08286a2e846f6be03''
                    ''https://example.com/hello'' binary_sig binary_key),
         Log Info ''Uploading manifest to Rekor.'', HttpDo hello_request, Log Info ''Status: ''],
        Inr ())"
  by (simp add: run_example example_world prepared_events_def artifact_response_simps)



end
